theory Spec2Isabelle
  imports Main "HOL-Library.Word"
begin

section \<open>JavaScript values\<close>

text \<open>
  Strings are sequences of characters with codes below 256; a character outside this
  range has no counterpart here.

  The scripts compute with JavaScript numbers. Every number the downloader handles is an
  integer (a counter, a length, a result of \<open>parseInt\<close>), one of the two infinities
  (which \<open>parseInt\<close> yields for a digit string beyond the range of a double), or the
  \<open>NaN\<close> that \<open>parseInt\<close> yields when it finds no digit. The two zeros of a double
  are one value here: they are equal under every comparison the scripts make and both
  are falsy; only their print differs.
\<close>

datatype jsnum = NaN | Num int | PosInf | NegInf

fun truthy_num :: "jsnum \<Rightarrow> bool" where
  "truthy_num NaN = False"
| "truthy_num (Num n) = (n \<noteq> 0)"
| "truthy_num PosInf = True"
| "truthy_num NegInf = True"

text \<open>\<open>Math.min(a, b)\<close>.\<close>

fun js_min :: "jsnum \<Rightarrow> jsnum \<Rightarrow> jsnum" where
  "js_min (Num a) (Num b) = Num (min a b)"
| "js_min NaN b = NaN"
| "js_min a NaN = NaN"
| "js_min NegInf b = NegInf"
| "js_min a NegInf = NegInf"
| "js_min PosInf b = b"
| "js_min a PosInf = a"

text \<open>
  \<open>a - b\<close> and \<open>a + b\<close>. The counters and offsets of a download are integers
  far below \<open>2^53\<close>, where the arithmetic of doubles is exact; integers are added
  and subtracted exactly here whatever their size.
\<close>

fun js_sub :: "jsnum \<Rightarrow> jsnum \<Rightarrow> jsnum" where
  "js_sub (Num a) (Num b) = Num (a - b)"
| "js_sub NaN b = NaN"
| "js_sub a NaN = NaN"
| "js_sub PosInf PosInf = NaN"
| "js_sub NegInf NegInf = NaN"
| "js_sub PosInf b = PosInf"
| "js_sub NegInf b = NegInf"
| "js_sub a PosInf = NegInf"
| "js_sub a NegInf = PosInf"

fun js_add :: "jsnum \<Rightarrow> jsnum \<Rightarrow> jsnum" where
  "js_add (Num a) (Num b) = Num (a + b)"
| "js_add NaN b = NaN"
| "js_add a NaN = NaN"
| "js_add PosInf NegInf = NaN"
| "js_add NegInf PosInf = NaN"
| "js_add PosInf b = PosInf"
| "js_add NegInf b = NegInf"
| "js_add a PosInf = PosInf"
| "js_add a NegInf = NegInf"

text \<open>\<open>a <= b\<close>, \<open>a < b\<close> and \<open>a > b\<close>: false whenever an operand is \<open>NaN\<close>.\<close>

fun js_le :: "jsnum \<Rightarrow> jsnum \<Rightarrow> bool" where
  "js_le (Num a) (Num b) = (a \<le> b)"
| "js_le NaN b = False"
| "js_le a NaN = False"
| "js_le NegInf b = True"
| "js_le a PosInf = True"
| "js_le a b = False"

fun js_lt :: "jsnum \<Rightarrow> jsnum \<Rightarrow> bool" where
  "js_lt (Num a) (Num b) = (a < b)"
| "js_lt NaN b = False"
| "js_lt a NaN = False"
| "js_lt PosInf b = False"
| "js_lt a NegInf = False"
| "js_lt a b = True"

definition js_gt :: "jsnum \<Rightarrow> jsnum \<Rightarrow> bool" where
  "js_gt a b = js_lt b a"

declare js_gt_def [simp]

text \<open>
  What \<open>JSON.parse\<close> returns. Of the numbers, the integers from \<open>-2^53\<close> to
  \<open>2^53 - 1\<close> are represented, as the signed value of a word of 54 bits: these are
  numbers that a double holds exactly and that \<open>String\<close> prints in full, in decimal
  notation. Numbers with a fraction, or outside this range, are not represented. A value
  of type \<open>json option\<close> is a JavaScript value that may be \<open>undefined\<close>
  (\<open>None\<close>).
\<close>

datatype json =
    JNull
  | JBool bool
  | JNum "54 word"
  | JStr string
  | JArr "json list"
  | JObj "(string \<times> json) list"

fun truthy :: "json option \<Rightarrow> bool" where
  "truthy None = False"
| "truthy (Some JNull) = False"
| "truthy (Some (JBool b)) = b"
| "truthy (Some (JNum n)) = (n \<noteq> 0)"
| "truthy (Some (JStr s)) = (s \<noteq> [])"
| "truthy (Some (JArr xs)) = True"
| "truthy (Some (JObj kvs)) = True"

datatype error = RequestError | SyntaxError | TypeError | MetadataError

text \<open>Own property of an object; of duplicate keys \<open>JSON.parse\<close> keeps the last.\<close>

definition own :: "(string \<times> json) list \<Rightarrow> string \<Rightarrow> json option" where
  "own kvs k = map_of (rev kvs) k"

text \<open>
  \<open>v.k\<close> for one of the keys the scripts read (none of them is a property of a
  string, number, boolean or array prototype): a \<open>TypeError\<close> on \<open>null\<close>.
\<close>

fun get_prop :: "json \<Rightarrow> string \<Rightarrow> error + json option" where
  "get_prop JNull k = Inl TypeError"
| "get_prop (JObj kvs) k = Inr (own kvs k)"
| "get_prop _ k = Inr None"

text \<open>\<open>v?.k\<close>: \<open>undefined\<close> on \<open>undefined\<close> and on \<open>null\<close>.\<close>

fun opt_prop :: "json option \<Rightarrow> string \<Rightarrow> json option" where
  "opt_prop (Some (JObj kvs)) k = own kvs k"
| "opt_prop _ k = None"

text \<open>\<open>v[0]\<close>.\<close>

fun index0 :: "json \<Rightarrow> error + json option" where
  "index0 JNull = Inl TypeError"
| "index0 (JArr xs) = Inr (case xs of [] \<Rightarrow> None | x # _ \<Rightarrow> Some x)"
| "index0 (JStr s) = Inr (case s of [] \<Rightarrow> None | c # _ \<Rightarrow> Some (JStr [c]))"
| "index0 (JObj kvs) = Inr (own kvs ''0'')"
| "index0 _ = Inr None"

subsection \<open>\<open>String(v)\<close> and \<open>parseInt(s, 10)\<close>\<close>

definition digit_char :: "nat \<Rightarrow> char" where
  "digit_char d = char_of (48 + d)"

fun show_nat :: "nat \<Rightarrow> string" where
  "show_nat n = (if n < 10 then [digit_char n] else show_nat (n div 10) @ [digit_char (n mod 10)])"

declare show_nat.simps [simp del]

definition show_int :: "int \<Rightarrow> string" where
  "show_int i = (if i < 0 then CHR ''-'' # show_nat (nat (- i)) else show_nat (nat i))"

definition join :: "string \<Rightarrow> string list \<Rightarrow> string" where
  "join sep xs = concat (case xs of [] \<Rightarrow> [] | y # ys \<Rightarrow> y # map (\<lambda>z. sep @ z) ys)"

fun toString :: "json \<Rightarrow> string" where
  "toString JNull = ''null''"
| "toString (JBool b) = (if b then ''true'' else ''false'')"
| "toString (JNum n) = show_int (sint n)"
| "toString (JStr s) = s"
| "toString (JArr xs) = join '','' (map (\<lambda>x. if x = JNull then [] else toString x) xs)"
| "toString (JObj kvs) = ''[object Object]''"

text \<open>
  The white space and the line terminators that \<open>parseInt\<close> skips: of the characters
  with codes below 256 these are the tab, the line feed, the vertical tab, the form
  feed, the carriage return, the space and the no-break space.
\<close>

definition is_space :: "char \<Rightarrow> bool" where
  "is_space c = (of_char c \<in> {9, 10, 11, 12, 13, 32, 160 :: nat})"

definition is_digit :: "char \<Rightarrow> bool" where
  "is_digit c = (48 \<le> (of_char c :: nat) \<and> (of_char c :: nat) \<le> 57)"

definition digits_val :: "string \<Rightarrow> int" where
  "digits_val ds = foldl (\<lambda>acc c. 10 * acc + (int (of_char c) - 48)) 0 ds"

text \<open>
  The number value of an integer: the double nearest to it, of two equally near ones the
  one with the even significand, and an infinity from \<open>2^1024 - 2^970\<close> on. Every
  integer below \<open>2^53\<close> is its own number value.
\<close>

function bit_length :: "int \<Rightarrow> nat" where
  "bit_length n = (if n \<le> 0 then 0 else Suc (bit_length (n div 2)))"
  by pat_completeness auto

termination
  by (relation "measure nat") auto

declare bit_length.simps [simp del]

definition nearest_double :: "int \<Rightarrow> int option" where
  "nearest_double n =
     (if n < 2 ^ 53 then Some n
      else
        (let e = bit_length n - 53;
             q = n div 2 ^ e;
             r = n mod 2 ^ e;
             h = 2 ^ (e - 1);
             m = (if h < r \<or> (r = h \<and> odd q) then q + 1 else q) * 2 ^ e
         in if m < 2 ^ 1024 then Some m else None))"

definition number_value :: "int \<Rightarrow> jsnum" where
  "number_value i =
     (case nearest_double \<bar>i\<bar> of
        None \<Rightarrow> (if i < 0 then NegInf else PosInf)
      | Some m \<Rightarrow> Num (if i < 0 then - m else m))"

text \<open>
  \<open>parseInt(s, 10)\<close>: leading white space and one sign are skipped, the digits that
  follow are read, and what comes after them is ignored.
\<close>

definition parseInt :: "string \<Rightarrow> jsnum" where
  "parseInt s =
     (let t = dropWhile is_space s;
          neg = (case t of [] \<Rightarrow> False | c # _ \<Rightarrow> c = CHR ''-'');
          u = (case t of [] \<Rightarrow> [] | c # r \<Rightarrow> if c = CHR ''-'' \<or> c = CHR ''+'' then r else t);
          z = takeWhile is_digit u
      in if z = [] then NaN
         else number_value (if neg then - digits_val z else digits_val z))"

section \<open>The remote side and the operator\<close>

text \<open>
  A response body, with what \<open>JSON.parse\<close> makes of it (\<open>None\<close> when it throws
  a \<open>SyntaxError\<close>). \<open>JSON.parse\<close> and \<open>JSON.stringify\<close> are the runtime's.
\<close>

record body =
  raw :: string
  parsed :: "json option"

datatype format = Csv | Json

text \<open>
  Everything the download reads from outside: the answers to its three kinds of request
  (\<open>None\<close> when the request emits \<open>error\<close>), and the line the operator types at the
  prompt. The answer to a page request may depend on the format, on the number of page
  requests issued before it, and on its \<open>$limit\<close> and \<open>$offset\<close>.
\<close>

record world =
  metadataResponse :: "body option"
  countResponse :: "body option"
  answer :: string
  remote :: "format \<Rightarrow> nat \<Rightarrow> jsnum \<Rightarrow> jsnum \<Rightarrow> body option"
  stringify :: "json \<Rightarrow> string"

section \<open>\<open>download-dataset.ts\<close>\<close>

text \<open>
  The arguments are those that \<open>parseArgs\<close> returns. \<open>parseArgs\<close> itself, which
  reads the command line, exits on a bad flag and creates the output directory, is not
  part of the model. The values of \<open>--limit\<close> and \<open>--chunk-size\<close> are results of
  \<open>parseInt\<close>, so they may be \<open>NaN\<close>.
\<close>

record CliArgs =
  datasetId :: string
  format :: format
  outputFile :: string
  outputDir :: string
  limit :: "jsnum option"
  whereClause :: "string option"
  selectCols :: "string option"
  orderBy :: "string option"
  chunkSize :: jsnum
  noConfirm :: bool

record Column =
  fieldName :: "json option"
  colName :: "json option"
  dataTypeName :: "json option"
  colDescription :: "json option"

record DatasetMetadata =
  name :: "json option"
  description :: "json option"
  columns :: "Column list"
  rowCount :: "json option"

subsection \<open>\<open>fetchMetadata\<close>\<close>

definition mk_column :: "json \<Rightarrow> error + Column" where
  "mk_column col =
     (case get_prop col ''fieldName'' of
        Inl e \<Rightarrow> Inl e
      | Inr f \<Rightarrow>
          (case (get_prop col ''name'', get_prop col ''dataTypeName'', get_prop col ''description'') of
             (Inr n, Inr t, Inr d) \<Rightarrow>
               Inr \<lparr>fieldName = f, colName = n, dataTypeName = t, colDescription = d\<rparr>
           | _ \<Rightarrow> Inl TypeError))"

fun map_columns :: "json list \<Rightarrow> error + Column list" where
  "map_columns [] = Inr []"
| "map_columns (c # cs) =
     (case mk_column c of
        Inl e \<Rightarrow> Inl e
      | Inr col \<Rightarrow> (case map_columns cs of Inl e \<Rightarrow> Inl e | Inr cols \<Rightarrow> Inr (col # cols)))"

text \<open>
  \<open>(metadata.columns || []).map(...)\<close>: only an array has \<open>map\<close>; on any other
  truthy value the call is a \<open>TypeError\<close>.
\<close>

definition columns_of :: "json option \<Rightarrow> error + Column list" where
  "columns_of c =
     (if truthy c then (case c of Some (JArr cols) \<Rightarrow> map_columns cols | _ \<Rightarrow> Inl TypeError)
      else Inr [])"

text \<open>
  Every exception inside the \<open>try\<close> (the \<open>SyntaxError\<close> of \<open>JSON.parse\<close>, a
  \<open>TypeError\<close> of a property access) is rejected as "Failed to parse metadata".
\<close>

definition fetchMetadata :: "world \<Rightarrow> error + DatasetMetadata" where
  "fetchMetadata w =
     (case metadataResponse w of
        None \<Rightarrow> Inl RequestError
      | Some b \<Rightarrow>
          (case parsed b of
             None \<Rightarrow> Inl MetadataError
           | Some metadata \<Rightarrow>
               (case (get_prop metadata ''name'', get_prop metadata ''description'',
                      get_prop metadata ''columns'', get_prop metadata ''rowsUpdatedAt'',
                      get_prop metadata ''rowCount'') of
                  (Inr n, Inr d, Inr c, Inr u, Inr r) \<Rightarrow>
                    (case columns_of c of
                       Inl e \<Rightarrow> Inl MetadataError
                     | Inr cols \<Rightarrow>
                         Inr \<lparr>name = n,
                              description = (if truthy d then d else Some (JStr [])),
                              columns = cols,
                              rowCount = (if truthy u then None else r)\<rparr>)
                | _ \<Rightarrow> Inl MetadataError)))"

subsection \<open>\<open>countRows\<close>\<close>

text \<open>\<open>parseInt(result[0]?.count || '0', 10)\<close>; an exception in the \<open>try\<close> is rejected as it is.\<close>

definition count_of :: "json \<Rightarrow> error + jsnum" where
  "count_of result =
     (case index0 result of
        Inl e \<Rightarrow> Inl e
      | Inr r0 \<Rightarrow>
          (let c = opt_prop r0 ''count''
           in Inr (parseInt (if truthy c then toString (the c) else ''0''))))"

definition countRows :: "world \<Rightarrow> error + jsnum" where
  "countRows w =
     (case countResponse w of
        None \<Rightarrow> Inl RequestError
      | Some b \<Rightarrow> (case parsed b of None \<Rightarrow> Inl SyntaxError | Some result \<Rightarrow> count_of result))"

subsection \<open>\<open>confirmDownload\<close>\<close>

text \<open>
  \<open>s.toLowerCase()\<close>: the capital letters with codes below 256 are \<open>A\<close> to \<open>Z\<close>
  and the codes 192 to 222 without 215, each 32 below its small letter.
\<close>

definition is_upper :: "char \<Rightarrow> bool" where
  "is_upper c =
     ((65 \<le> (of_char c :: nat) \<and> (of_char c :: nat) \<le> 90)
      \<or> (192 \<le> (of_char c :: nat) \<and> (of_char c :: nat) \<le> 222 \<and> (of_char c :: nat) \<noteq> 215))"

definition toLowerCase :: "string \<Rightarrow> string" where
  "toLowerCase s = map (\<lambda>c. if is_upper c then char_of ((of_char c :: nat) + 32) else c) s"

definition confirmDownload :: "world \<Rightarrow> bool" where
  "confirmDownload w = (toLowerCase (answer w) = ''y'' \<or> toLowerCase (answer w) = ''yes'')"

subsection \<open>What a run does\<close>

text \<open>
  A run is observed as the sequence of its effects: the requests it issues, the prompt,
  the operations on the output stream, and the lines it prints. A printed line is kept
  as its kind and the values it shows, not as its text (the text depends on the locale
  through \<open>toLocaleString\<close>); a progress line is kept as the numbers it shows (the
  percentage is computed from them). Empty lines and the lines of the column list are
  not kept apart.
\<close>

datatype message =
    FetchingMetadata string
  | DatasetName "json option"
  | ColumnCount nat
  | AvailableColumns "Column list"
  | CountingRows
  | TotalRows jsnum
  | LargeDataset
  | ExampleFilters "json option"
  | Cancelled
  | DownloadingTo string
  | Complete int string

datatype event =
    Log message
  | GetMetadata
  | GetCount
  | Prompt jsnum
  | CreateWriteStream string
  | Write string
  | FetchChunk jsnum jsnum
  | Progress int jsnum
  | Downloaded int
  | EndStream
  | LogError error

datatype outcome = Resolved | Rejected error | Exit int

subsection \<open>The filter suggestion\<close>

fun is_infix :: "string \<Rightarrow> string \<Rightarrow> bool" where
  "is_infix sub [] = (sub = [])"
| "is_infix sub (c # cs) = (take (length sub) (c # cs) = sub \<or> is_infix sub cs)"

text \<open>\<open>v.includes(s)\<close>: a method of strings and of arrays only.\<close>

fun js_includes :: "json option \<Rightarrow> string \<Rightarrow> error + bool" where
  "js_includes (Some (JStr s)) sub = Inr (is_infix sub s)"
| "js_includes (Some (JArr xs)) sub = Inr (JStr sub \<in> set xs)"
| "js_includes _ sub = Inl TypeError"

definition is_date_column :: "Column \<Rightarrow> error + bool" where
  "is_date_column col =
     (if dataTypeName col = Some (JStr ''calendar_date'') then Inr True
      else (case js_includes (fieldName col) ''date'' of
              Inl e \<Rightarrow> Inl e
            | Inr True \<Rightarrow> Inr True
            | Inr False \<Rightarrow> js_includes (fieldName col) ''time''))"

fun dateColumns :: "Column list \<Rightarrow> error + Column list" where
  "dateColumns [] = Inr []"
| "dateColumns (col # cols) =
     (case is_date_column col of
        Inl e \<Rightarrow> Inl e
      | Inr keep \<Rightarrow>
          (case dateColumns cols of
             Inl e \<Rightarrow> Inl e
           | Inr ds \<Rightarrow> Inr (if keep then col # ds else ds)))"

subsection \<open>Counting and confirming\<close>

text \<open>\<open>!args.limit\<close> and \<open>!args.where\<close>: zero, \<open>NaN\<close> and the empty string are falsy.\<close>

fun truthy_opt :: "jsnum option \<Rightarrow> bool" where
  "truthy_opt None = False"
| "truthy_opt (Some n) = truthy_num n"

definition has_where :: "CliArgs \<Rightarrow> bool" where
  "has_where args = (case whereClause args of None \<Rightarrow> False | Some s \<Rightarrow> s \<noteq> [])"

text \<open>
  Lines 274 to 306: the value of \<open>totalRows\<close>, or the way the run ends there, with the
  effects up to that point.
\<close>

definition count_and_confirm ::
  "world \<Rightarrow> CliArgs \<Rightarrow> DatasetMetadata \<Rightarrow> (outcome + jsnum option) \<times> event list" where
  "count_and_confirm w args metadata =
     (if \<not> noConfirm args \<and> \<not> truthy_opt (limit args) then
        (case countRows w of
           Inl e \<Rightarrow> (Inl (Rejected e), [Log CountingRows, GetCount])
         | Inr totalRows \<Rightarrow>
             (let t = [Log CountingRows, GetCount, Log (TotalRows totalRows)];
                  hint =
                    (if js_gt totalRows (Num 50000) \<and> \<not> has_where args then
                       (case dateColumns (columns metadata) of
                          Inl e \<Rightarrow> Inl e
                        | Inr [] \<Rightarrow> Inr [Log LargeDataset]
                        | Inr (d # _) \<Rightarrow> Inr [Log LargeDataset, Log (ExampleFilters (fieldName d))])
                     else Inr [])
              in case hint of
                   Inl e \<Rightarrow> (Inl (Rejected e), t @ [Log LargeDataset])
                 | Inr h \<Rightarrow>
                     (if confirmDownload w then (Inr (Some totalRows), t @ h @ [Prompt totalRows])
                      else (Inl (Exit 0), t @ h @ [Prompt totalRows, Log Cancelled]))))
      else (Inr None, []))"

subsection \<open>The download loop\<close>

record loop_state =
  offset :: jsnum
  downloadedRows :: int
  isFirstChunk :: bool
  trace :: "event list"

definition emit :: "event \<Rightarrow> loop_state \<Rightarrow> loop_state" where
  "emit e s = s\<lparr>trace := trace s @ [e]\<rparr>"

fun is_fetch :: "event \<Rightarrow> bool" where
  "is_fetch (FetchChunk l off) = True"
| "is_fetch _ = False"

definition fetch_count :: "event list \<Rightarrow> nat" where
  "fetch_count t = length (filter is_fetch t)"

definition nl :: char where
  "nl = CHR 0x0A"

text \<open>\<open>rows.forEach\<close> of the JSON branch, \<open>index\<close> counting from the given value.\<close>

fun forEach_rows :: "(json \<Rightarrow> string) \<Rightarrow> json list \<Rightarrow> nat \<Rightarrow> loop_state \<Rightarrow> loop_state" where
  "forEach_rows str [] index s = s"
| "forEach_rows str (row # rows) index s =
     forEach_rows str rows (Suc index)
       ((emit (Write (''  '' @ str row))
          (if \<not> isFirstChunk s \<or> index > 0 then emit (Write [CHR '','', nl]) s else s))
        \<lparr>isFirstChunk := False\<rparr>)"

text \<open>\<open>chunk.split('\n')\<close>: never empty.\<close>

fun split_lines :: "string \<Rightarrow> string list" where
  "split_lines [] = [[]]"
| "split_lines (c # cs) =
     (if c = nl then [] # split_lines cs
      else (case split_lines cs of [] \<Rightarrow> [[c]] | l # ls \<Rightarrow> (c # l) # ls))"

definition progress :: "jsnum option \<Rightarrow> loop_state \<Rightarrow> loop_state" where
  "progress rowsToDownload s =
     (if truthy_opt rowsToDownload then emit (Progress (downloadedRows s) (the rowsToDownload)) s
      else emit (Downloaded (downloadedRows s)) s)"

datatype loop_exit = Break | Throw error

definition chunkLimit :: "CliArgs \<Rightarrow> jsnum option \<Rightarrow> loop_state \<Rightarrow> jsnum" where
  "chunkLimit args rowsToDownload s =
     js_min (chunkSize args)
       (if truthy_opt rowsToDownload then js_sub (the rowsToDownload) (Num (downloadedRows s))
        else chunkSize args)"

text \<open>The part of the body after the page has arrived, for each format.\<close>

definition json_chunk ::
  "world \<Rightarrow> jsnum \<Rightarrow> body \<Rightarrow> loop_state \<Rightarrow> (loop_exit \<times> loop_state) + loop_state" where
  "json_chunk w lim chunk s =
     (case parsed chunk of
        None \<Rightarrow> Inl (Throw SyntaxError, s)
      | Some (JArr rows) \<Rightarrow>
          (if rows = [] then Inl (Break, s)
           else
             (let s1 = forEach_rows (stringify w) rows 0 s;
                  s2 = s1\<lparr>downloadedRows := downloadedRows s1 + int (length rows)\<rparr>
              in if js_lt (Num (int (length rows))) lim then Inl (Break, s2) else Inr s2))
      | Some _ \<Rightarrow> Inl (Break, s))"

definition csv_chunk ::
  "jsnum \<Rightarrow> body \<Rightarrow> loop_state \<Rightarrow> (loop_exit \<times> loop_state) + loop_state" where
  "csv_chunk lim chunk s =
     (let lines = split_lines (raw chunk)
      in if length lines \<le> 1 then Inl (Break, s)
         else
           (let s1 = (if isFirstChunk s then (emit (Write (raw chunk)) s)\<lparr>isFirstChunk := False\<rparr>
                      else emit (Write (join [nl] (tl lines))) s);
                s2 = s1\<lparr>downloadedRows := downloadedRows s1 + (int (length lines) - 1)\<rparr>
            in if js_lt (Num (int (length lines) - 1)) lim then Inl (Break, s2) else Inr s2))"

definition commit_chunk ::
  "world \<Rightarrow> format \<Rightarrow> jsnum \<Rightarrow> body \<Rightarrow> loop_state \<Rightarrow> (loop_exit \<times> loop_state) + loop_state" where
  "commit_chunk w fmt lim chunk s =
     (case fmt of Json \<Rightarrow> json_chunk w lim chunk s | Csv \<Rightarrow> csv_chunk lim chunk s)"

text \<open>One pass through the body of \<open>while (true)\<close>: \<open>Inl\<close> leaves the loop, \<open>Inr\<close> goes round again.\<close>

definition loop_body ::
  "world \<Rightarrow> CliArgs \<Rightarrow> jsnum option \<Rightarrow> loop_state \<Rightarrow> (loop_exit \<times> loop_state) + loop_state" where
  "loop_body w args rowsToDownload s =
     (let lim = chunkLimit args rowsToDownload s
      in if js_le lim (Num 0) then Inl (Break, s)
         else
           (let s1 = emit (FetchChunk lim (offset s)) s
            in case remote w (format args) (fetch_count (trace s)) lim (offset s) of
                 None \<Rightarrow> Inl (Throw RequestError, s1)
               | Some chunk \<Rightarrow>
                   (case commit_chunk w (format args) lim chunk s1 of
                      Inl r \<Rightarrow> Inl r
                    | Inr s2 \<Rightarrow>
                        Inr (progress rowsToDownload (s2\<lparr>offset := js_add (offset s2) lim\<rparr>)))))"

text \<open>The loop itself; it may go on for ever, and then has no result.\<close>

partial_function (option) download_loop ::
  "world \<Rightarrow> CliArgs \<Rightarrow> jsnum option \<Rightarrow> loop_state \<Rightarrow> (loop_exit \<times> loop_state) option" where
  "download_loop w args rowsToDownload s =
     (case loop_body w args rowsToDownload s of
        Inl r \<Rightarrow> Some r
      | Inr s' \<Rightarrow> download_loop w args rowsToDownload s')"

declare download_loop.simps [code]

subsection \<open>\<open>downloadDataset\<close> and the main block\<close>

definition open_bracket :: "CliArgs \<Rightarrow> event list" where
  "open_bracket args = (if format args = Json then [Write [CHR ''['', nl]] else [])"

definition close_bracket :: "CliArgs \<Rightarrow> event list" where
  "close_bracket args = (if format args = Json then [Write [nl, CHR '']'', nl]] else [])"

definition banner :: "CliArgs \<Rightarrow> DatasetMetadata \<Rightarrow> event list" where
  "banner args metadata =
     [Log (FetchingMetadata (datasetId args)), GetMetadata,
      Log (DatasetName (name metadata)), Log (ColumnCount (length (columns metadata)))]
     @ (if columns metadata \<noteq> [] then [Log (AvailableColumns (columns metadata))] else [])"

text \<open>The state in which the loop is entered, after the effects \<open>t\<close>.\<close>

definition start_state :: "CliArgs \<Rightarrow> event list \<Rightarrow> loop_state" where
  "start_state args t =
     \<lparr>offset = Num 0, downloadedRows = 0, isFirstChunk = True,
      trace = t @ [Log (DownloadingTo (outputFile args)), CreateWriteStream (outputFile args)]
                @ open_bracket args\<rparr>"

definition finish :: "CliArgs \<Rightarrow> loop_state \<Rightarrow> event list" where
  "finish args s =
     trace s @ close_bracket args
       @ [EndStream, Log (Complete (downloadedRows s) (outputFile args))]"

definition downloadDataset :: "world \<Rightarrow> CliArgs \<Rightarrow> (outcome \<times> event list) option" where
  "downloadDataset w args =
     (case fetchMetadata w of
        Inl e \<Rightarrow> Some (Rejected e, [Log (FetchingMetadata (datasetId args)), GetMetadata])
      | Inr metadata \<Rightarrow>
          (case count_and_confirm w args metadata of
             (Inl out, t2) \<Rightarrow> Some (out, banner args metadata @ t2)
           | (Inr totalRows, t2) \<Rightarrow>
               (let rowsToDownload = (if truthy_opt (limit args) then limit args else totalRows)
                in case download_loop w args rowsToDownload
                          (start_state args (banner args metadata @ t2)) of
                     None \<Rightarrow> None
                   | Some (Throw e, s) \<Rightarrow> Some (Rejected e, trace s)
                   | Some (Break, s) \<Rightarrow> Some (Resolved, finish args s))))"

text \<open>
  The main block, after \<open>parseArgs\<close> has returned the arguments: the exit code of the
  process and its effects. A rejection is printed and the process exits with code 1.
\<close>

definition main :: "world \<Rightarrow> CliArgs \<Rightarrow> (int \<times> event list) option" where
  "main w args =
     (case downloadDataset w args of
        None \<Rightarrow> None
      | Some (Resolved, t) \<Rightarrow> Some (0, t)
      | Some (Rejected e, t) \<Rightarrow> Some (1, t @ [LogError e])
      | Some (Exit c, t) \<Rightarrow> Some (c, t))"

subsection \<open>Reading a run\<close>

text \<open>What the writes of a run put into the output file, in order.\<close>

definition file_content :: "event list \<Rightarrow> string" where
  "file_content t = concat (map (\<lambda>e. case e of Write x \<Rightarrow> x | _ \<Rightarrow> []) t)"

definition fetches :: "event list \<Rightarrow> (jsnum \<times> jsnum) list" where
  "fetches t = concat (map (\<lambda>e. case e of FetchChunk l off \<Rightarrow> [(l, off)] | _ \<Rightarrow> []) t)"

fun touches_file :: "event \<Rightarrow> bool" where
  "touches_file (CreateWriteStream p) = True"
| "touches_file (Write x) = True"
| "touches_file EndStream = True"
| "touches_file _ = False"

fun is_progress :: "event \<Rightarrow> bool" where
  "is_progress (Progress n known) = True"
| "is_progress (Downloaded n) = True"
| "is_progress _ = False"


definition progress_count :: "event list \<Rightarrow> nat" where
  "progress_count t = length (filter is_progress t)"

text \<open>
  \<open>precedes A B t\<close>: no event of kind \<open>B\<close> happens in \<open>t\<close> unless an event of
  kind \<open>A\<close> has happened before it.
\<close>

fun precedes :: "(event \<Rightarrow> bool) \<Rightarrow> (event \<Rightarrow> bool) \<Rightarrow> event list \<Rightarrow> bool" where
  "precedes A B [] = True"
| "precedes A B (e # t) = (if A e then True else \<not> B e \<and> precedes A B t)"

text \<open>
  The number of rows the loop counts in a page (\<open>rows.length\<close>, or
  \<open>lines.length - 1\<close>); none when the body of a JSON page is not an array.
\<close>

fun rows_in :: "format \<Rightarrow> body \<Rightarrow> int option" where
  "rows_in Json b = (case parsed b of Some (JArr rows) \<Rightarrow> Some (int (length rows)) | _ \<Rightarrow> None)"
| "rows_in Csv b = Some (int (length (split_lines (raw b))) - 1)"

text \<open>
  The text that a page adds to the file when it is committed, \<open>first\<close> telling
  whether it is the first page committed.
\<close>

definition row_text :: "world \<Rightarrow> json \<Rightarrow> string" where
  "row_text w row = ''  '' @ stringify w row"

fun page_text :: "world \<Rightarrow> format \<Rightarrow> bool \<Rightarrow> body \<Rightarrow> string" where
  "page_text w Json first b =
     (case parsed b of
        Some (JArr rows) \<Rightarrow>
          (if first then join [CHR '','', nl] (map (row_text w) rows)
           else concat (map (\<lambda>row. [CHR '','', nl] @ row_text w row) rows))
      | _ \<Rightarrow> [])"
| "page_text w Csv first b = (if first then raw b else join [nl] (tl (split_lines (raw b))))"

section \<open>A simulated remote source\<close>

text \<open>
  A dataset held by a simulated source: the header line of its text table and, for each
  row, its line in the table and its record. The flag says whether the source ends the
  last line of a text page with a newline or not.
\<close>

record dataset =
  header :: string
  entries :: "(string \<times> json) list"
  terminated :: bool

definition quoted :: "string \<Rightarrow> string" where
  "quoted s = CHR 0x22 # s @ [CHR 0x22]"

text \<open>Compact JSON text of a value (of strings that need no escaping).\<close>

fun json_text :: "json \<Rightarrow> string" where
  "json_text JNull = ''null''"
| "json_text (JBool b) = (if b then ''true'' else ''false'')"
| "json_text (JNum n) = show_int (sint n)"
| "json_text (JStr s) = quoted s"
| "json_text (JArr xs) = ''['' @ join '','' (map json_text xs) @ '']''"
| "json_text (JObj kvs) =
     ''{'' @ join '','' (map (\<lambda>kv. quoted (fst kv) @ '':'' @ json_text (snd kv)) kvs) @ ''}''"

definition csv_text :: "bool \<Rightarrow> string list \<Rightarrow> string" where
  "csv_text term ls = join [nl] ls @ (if term then [nl] else [])"

text \<open>
  The page for \<open>$limit = c\<close> and \<open>$offset = off\<close>: at most \<open>c\<close> rows from row
  \<open>off\<close> on, that is, \<open>min c (remaining rows)\<close> of them.
\<close>

definition page :: "'a list \<Rightarrow> int \<Rightarrow> int \<Rightarrow> 'a list" where
  "page xs c off = take (nat c) (drop (nat off) xs)"

definition json_body :: "json \<Rightarrow> body" where
  "json_body v = \<lparr>raw = json_text v, parsed = Some v\<rparr>"

definition error_body :: body where
  "error_body = json_body (JObj [(''error'', JBool True)])"

fun source :: "dataset \<Rightarrow> format \<Rightarrow> nat \<Rightarrow> jsnum \<Rightarrow> jsnum \<Rightarrow> body option" where
  "source d fmt i (Num c) (Num off) =
     (if c < 0 \<or> off < 0 then Some error_body
      else
        (let p = page (entries d) c off
         in Some (case fmt of
                    Csv \<Rightarrow> \<lparr>raw = csv_text (terminated d) (header d # map fst p), parsed = None\<rparr>
                  | Json \<Rightarrow> json_body (JArr (map snd p)))))"
| "source d fmt i _ _ = Some error_body"

text \<open>A dataset of \<open>n\<close> rows with one column, the rows numbered from 1.\<close>

definition numbered :: "bool \<Rightarrow> nat \<Rightarrow> dataset" where
  "numbered term n =
     \<lparr>header = ''id'',
      entries = map (\<lambda>k. (show_nat k, JObj [(''id'', JStr (show_nat k))])) [1..<Suc n],
      terminated = term\<rparr>"

definition metadata_body :: body where
  "metadata_body = json_body (JObj [(''name'', JStr ''Rows''), (''columns'', JArr [])])"

definition count_body :: "string \<Rightarrow> body" where
  "count_body n = json_body (JArr [JObj [(''count'', JStr n)]])"

text \<open>
  The world in which the source holds the dataset \<open>d\<close>, answers the count query
  with the number of its rows, and the operator types \<open>reply\<close>.
\<close>

definition sim :: "dataset \<Rightarrow> string \<Rightarrow> world" where
  "sim d reply =
     \<lparr>metadataResponse = Some metadata_body,
      countResponse = Some (count_body (show_nat (length (entries d)))),
      answer = reply,
      remote = source d,
      stringify = json_text\<rparr>"

definition request :: "format \<Rightarrow> jsnum option \<Rightarrow> jsnum \<Rightarrow> bool \<Rightarrow> CliArgs" where
  "request fmt lim csize quiet =
     \<lparr>datasetId = ''abcd-1234'', format = fmt, outputFile = ''./data/abcd-1234'',
      outputDir = ''./data'', limit = lim, whereClause = None, selectCols = None,
      orderBy = None, chunkSize = csize, noConfirm = quiet\<rparr>"

subsection \<open>Sample requests and worlds\<close>

text \<open>A request for the JSON format with no limit, confirmation suppressed, pages of \<open>p\<close> rows.\<close>

definition quiet_json :: "int \<Rightarrow> CliArgs" where
  "quiet_json p = request Json None (Num p) True"

text \<open>A request with the limit \<open>l\<close> and pages of \<open>p\<close> rows.\<close>

definition with_limit :: "format \<Rightarrow> int \<Rightarrow> int \<Rightarrow> CliArgs" where
  "with_limit fmt l p = request fmt (Some (Num l)) (Num p) True"

text \<open>
  A request with no limit that asks for confirmation; a world whose count query answers
  60000; worlds whose metadata request fails, or answers with a body that is not JSON.
\<close>

definition ask :: CliArgs where
  "ask = request Json None (Num 2) False"


definition unreachable :: world where
  "unreachable = (sim (numbered False 3) ''y'')\<lparr>metadataResponse := None\<rparr>"

definition garbled :: world where
  "garbled = (sim (numbered False 3) ''y'')
                \<lparr>metadataResponse := Some \<lparr>raw = ''<html>'', parsed = None\<rparr>\<rparr>"

text \<open>The same world with another answer to the count query.\<close>

definition counting :: "json \<Rightarrow> world" where
  "counting v = (sim (numbered False 0) ''y'')\<lparr>countResponse := Some (json_body v)\<rparr>"

section \<open>Notions used in the statements\<close>

text \<open>
  \<open>committed w fmt b n s s2\<close>: from \<open>s\<close> to \<open>s2\<close> the page \<open>b\<close> of \<open>n\<close> rows has been
  committed: its text is written, the counter of rows has grown by \<open>n\<close>, and nothing
  else has happened.
\<close>

definition committed ::
  "world \<Rightarrow> format \<Rightarrow> body \<Rightarrow> int \<Rightarrow> loop_state \<Rightarrow> loop_state \<Rightarrow> bool" where
  "committed w fmt b n s s2 =
     (offset s2 = offset s \<and> downloadedRows s2 = downloadedRows s + n \<and> \<not> isFirstChunk s2
      \<and> (\<exists>ws. trace s2 = trace s @ map Write ws
               \<and> concat ws = page_text w fmt (isFirstChunk s) b))"

text \<open>The progress line after a page, \<open>n\<close> rows being committed so far.\<close>

definition progress_line :: "jsnum option \<Rightarrow> int \<Rightarrow> event" where
  "progress_line r n = (if truthy_opt r then Progress n (the r) else Downloaded n)"

text \<open>The effects before the output file is opened: printing, the two queries, the prompt.\<close>

fun is_talk :: "event \<Rightarrow> bool" where
  "is_talk (Log m) = True"
| "is_talk GetMetadata = True"
| "is_talk GetCount = True"
| "is_talk (Prompt n) = True"
| "is_talk _ = False"

text \<open>What is read off a run: how it ends, its page requests, its progress lines, its last effect.\<close>

definition run_summary ::
  "(outcome \<times> event list) option
     \<Rightarrow> (outcome \<times> (jsnum \<times> jsnum) list \<times> event list \<times> event) option" where
  "run_summary r = map_option (\<lambda>(out, t). (out, fetches t, filter is_progress t, last t)) r"

definition written :: "(outcome \<times> event list) option \<Rightarrow> string option" where
  "written r = map_option (\<lambda>(out, t). file_content t) r"

text \<open>
  The invariant of the loop in the JSON format: the file holds the opening bracket and
  the records committed so far, with commas between them and none after the last,
  \<open>isFirstChunk\<close> tells whether any record has been written, and \<open>downloadedRows\<close>
  is the number of the records.
\<close>

definition framed :: "world \<Rightarrow> loop_state \<Rightarrow> bool" where
  "framed w s = (\<exists>rows. file_content (trace s)
                    = [CHR ''['', nl] @ join [CHR '','', nl] (map (row_text w) rows)
                  \<and> (isFirstChunk s \<longleftrightarrow> rows = [])
                  \<and> int (length rows) = downloadedRows s)"

text \<open>
  A remote source that holds \<open>N\<close> rows and returns exactly
  \<open>min (requested cap) (remaining rows)\<close> per page: whenever it is asked, for the
  \<open>i\<close>-th request, for \<open>c\<close> rows from offset \<open>off\<close>, it answers with a page in
  which the loop counts that many rows. In the text format the loop takes a page to be
  the header line and one line per row, so this is a source whose pages do not end with
  a newline; what the code does with pages that do is shown with the text output below.
\<close>

definition exact_source :: "world \<Rightarrow> format \<Rightarrow> int \<Rightarrow> bool" where
  "exact_source w fmt N =
     (\<forall>i c off. 0 < c \<and> 0 \<le> off \<longrightarrow>
        (\<exists>b. remote w fmt i (Num c) (Num off) = Some b
           \<and> rows_in fmt b = Some (min c (max 0 (N - off)))))"

text \<open>
  The page requests of a download that stops at \<open>L\<close> rows with pages of \<open>P\<close> rows:
  one per page, \<open>ceil (L / P)\<close> of them, page \<open>k\<close> (from 0) at offset \<open>k * P\<close> with
  the cap \<open>min P (L - k * P)\<close>.
\<close>

definition ceil_div :: "int \<Rightarrow> int \<Rightarrow> int" where
  "ceil_div L P = (L + P - 1) div P"

definition capped_requests :: "int \<Rightarrow> int \<Rightarrow> (jsnum \<times> jsnum) list" where
  "capped_requests P L =
     map (\<lambda>k. (Num (min P (L - int k * P)), Num (int k * P))) [0..<nat (ceil_div L P)]"


section \<open>Auxiliary facts\<close>

subsection \<open>The rule for the loop\<close>

text \<open>The rule for the loop: an invariant, kept by every pass, gives what holds at the exit.\<close>

lemma loop_rule:
  assumes run: "download_loop w a r s = Some (x, s')"
    and init: "I s"
    and step: "\<And>s s1. I s \<Longrightarrow> loop_body w a r s = Inr s1 \<Longrightarrow> I s1"
    and exit: "\<And>s x s1. I s \<Longrightarrow> loop_body w a r s = Inl (x, s1) \<Longrightarrow> Q x s1"
  shows "Q x s'"
proof -
  let ?P = "\<lambda>w' a' r' s y. w' = w \<longrightarrow> a' = a \<longrightarrow> r' = r \<longrightarrow> I s \<longrightarrow> Q (fst y) (snd y)"
  have "?P w a r s (x, s')"
  proof (rule download_loop.raw_induct [where P = ?P, OF _ run])
    fix f w' a' r' s y
    assume IH: "\<And>w'' a'' r'' s'' y. f w'' a'' r'' s'' = Some y \<Longrightarrow> ?P w'' a'' r'' s'' y"
      and body: "(case loop_body w' a' r' s of Inl r \<Rightarrow> Some r | Inr s1 \<Rightarrow> f w' a' r' s1) = Some y"
    show "?P w' a' r' s y"
    proof (intro impI)
      assume eq: "w' = w" "a' = a" "r' = r" and inv: "I s"
      show "Q (fst y) (snd y)"
      proof (cases "loop_body w a r s")
        case (Inl res)
        with body eq have "y = res" by simp
        with Inl exit [OF inv, of "fst y" "snd y"] show ?thesis by simp
      next
        case (Inr s1)
        with body eq have "f w a r s1 = Some y" by simp
        from IH [OF this] step [OF inv Inr] show ?thesis by simp
      qed
    qed
  qed
  with init show ?thesis by simp
qed

subsection \<open>Reading the effects\<close>

lemma emit_simps [simp]:
  "trace (emit e s) = trace s @ [e]"
  "offset (emit e s) = offset s"
  "downloadedRows (emit e s) = downloadedRows s"
  "isFirstChunk (emit e s) = isFirstChunk s"
  by (simp_all add: emit_def)

lemma file_content_append [simp]:
  "file_content (t @ u) = file_content t @ file_content u"
  by (simp add: file_content_def)

lemma file_content_Write [simp]: "file_content (map Write ws) = concat ws"
  by (induction ws) (simp_all add: file_content_def)

lemma fetch_count_append [simp]: "fetch_count (t @ u) = fetch_count t + fetch_count u"
  by (simp add: fetch_count_def)

lemma fetch_count_Write [simp]: "fetch_count (map Write ws) = 0"
  by (induction ws) (simp_all add: fetch_count_def)

lemma fetches_append [simp]: "fetches (t @ u) = fetches t @ fetches u"
  by (simp add: fetches_def)

lemma fetches_Write [simp]: "fetches (map Write ws) = []"
  by (induction ws) (simp_all add: fetches_def)

lemma progress_count_append [simp]:
  "progress_count (t @ u) = progress_count t + progress_count u"
  by (simp add: progress_count_def)

lemma progress_count_Write [simp]: "progress_count (map Write ws) = 0"
  by (induction ws) (simp_all add: progress_count_def)

subsection \<open>Committing a page\<close>

lemma forEach_rows_fields [simp]:
  "offset (forEach_rows str rows i s) = offset s"
  "downloadedRows (forEach_rows str rows i s) = downloadedRows s"
  "isFirstChunk (forEach_rows str rows i s) = (isFirstChunk s \<and> rows = [])"
  by (induction rows arbitrary: i s) auto

lemma forEach_rows_later:
  "\<not> isFirstChunk s \<or> 0 < i \<Longrightarrow>
   trace (forEach_rows str rows i s) =
     trace s @ map Write (concat (map (\<lambda>row. [[CHR '','', nl], ''  '' @ str row]) rows))"
  by (induction rows arbitrary: i s) auto

lemma forEach_rows_first:
  "isFirstChunk s \<Longrightarrow>
   trace (forEach_rows str (row # rows) 0 s) =
     trace s @ map Write ((''  '' @ str row)
                 # concat (map (\<lambda>row. [[CHR '','', nl], ''  '' @ str row]) rows))"
  by (simp add: forEach_rows_later)

lemma concat_pairs:
  "concat (concat (map (\<lambda>row. [a, f row]) rows)) = concat (map (\<lambda>row. a @ f row) rows)"
  by (induction rows) auto

lemma forEach_rows_trace:
  "\<exists>ws. trace (forEach_rows (stringify w) rows 0 s) = trace s @ map Write ws
       \<and> concat ws = page_text w Json (isFirstChunk s) \<lparr>raw = x, parsed = Some (JArr rows)\<rparr>"
proof (cases "isFirstChunk s")
  case False
  then show ?thesis
    by (auto simp: forEach_rows_later concat_pairs row_text_def intro!: exI)
next
  case True
  show ?thesis
  proof (cases rows)
    case Nil
    then show ?thesis using True by (simp add: join_def)
  next
    case (Cons row rest)
    let ?ws = "(''  '' @ stringify w row)
                 # concat (map (\<lambda>row. [[CHR '','', nl], ''  '' @ stringify w row]) rest)"
    have "trace (forEach_rows (stringify w) rows 0 s) = trace s @ map Write ?ws"
      unfolding Cons by (rule forEach_rows_first [OF True])
    moreover have "concat ?ws = page_text w Json (isFirstChunk s) \<lparr>raw = x, parsed = Some (JArr rows)\<rparr>"
      using True Cons by (simp add: concat_pairs row_text_def join_def comp_def)
    ultimately show ?thesis by blast
  qed
qed

lemma split_lines_nonempty [simp]: "split_lines cs \<noteq> []"
  by (induction cs) (auto split: list.splits)

lemma rows_in_nonneg: "rows_in fmt b = Some n \<Longrightarrow> 0 \<le> n"
proof (cases fmt)
  case Csv
  assume "rows_in fmt b = Some n"
  moreover have "0 < length (split_lines (raw b))" by simp
  ultimately show ?thesis using Csv by auto
next
  case Json
  assume "rows_in fmt b = Some n"
  then show ?thesis using Json by (auto split: option.splits json.splits)
qed

text \<open>A page in which the loop counts no row ends the loop, and nothing is written.\<close>

lemma commit_empty:
  "rows_in fmt b = Some 0 \<Longrightarrow> commit_chunk w fmt lim b s = Inl (Break, s)"
  by (cases fmt)
     (auto simp: commit_chunk_def json_chunk_def csv_chunk_def Let_def
           split: option.splits json.splits)

lemma commit_rows:
  assumes "rows_in fmt b = Some n" and "0 < n"
  shows "\<exists>s2. committed w fmt b n s s2
            \<and> commit_chunk w fmt lim b s = (if js_lt (Num n) lim then Inl (Break, s2) else Inr s2)"
proof (cases fmt)
  case Json
  from assms Json obtain rows where p: "parsed b = Some (JArr rows)" and n: "n = int (length rows)"
    by (auto split: option.splits json.splits)
  have ne: "rows \<noteq> []" using n assms(2) by auto
  let ?s1 = "forEach_rows (stringify w) rows 0 s"
  let ?s2 = "?s1\<lparr>downloadedRows := downloadedRows ?s1 + int (length rows)\<rparr>"
  from forEach_rows_trace [of w rows s "raw b"]
  obtain ws where ws: "trace ?s1 = trace s @ map Write ws"
      "concat ws = page_text w Json (isFirstChunk s) \<lparr>raw = raw b, parsed = Some (JArr rows)\<rparr>"
    by blast
  have "committed w fmt b n s ?s2"
    using ws p n ne Json by (auto simp: committed_def)
  moreover have "commit_chunk w fmt lim b s = (if js_lt (Num n) lim then Inl (Break, ?s2) else Inr ?s2)"
    using p n ne Json by (simp add: commit_chunk_def json_chunk_def Let_def)
  ultimately show ?thesis by blast
next
  case Csv
  let ?lines = "split_lines (raw b)"
  from assms Csv have n: "n = int (length ?lines) - 1" by simp
  then have len: "\<not> length ?lines \<le> 1" using assms(2) by simp
  let ?s1 = "(if isFirstChunk s then (emit (Write (raw b)) s)\<lparr>isFirstChunk := False\<rparr>
              else emit (Write (join [nl] (tl ?lines))) s)"
  let ?s2 = "?s1\<lparr>downloadedRows := downloadedRows ?s1 + (int (length ?lines) - 1)\<rparr>"
  have "trace ?s2 = trace s @ map Write [page_text w Csv (isFirstChunk s) b]" by simp
  then have "committed w fmt b n s ?s2"
    unfolding committed_def using n Csv by (intro conjI exI [of _ "[page_text w Csv (isFirstChunk s) b]"]) auto
  moreover have "commit_chunk w fmt lim b s = (if js_lt (Num n) lim then Inl (Break, ?s2) else Inr ?s2)"
    using n len Csv by (simp add: commit_chunk_def csv_chunk_def Let_def)
  ultimately show ?thesis by blast
qed

subsection \<open>Parsing an integer\<close>

lemma number_value_exact: "\<bar>i\<bar> < 2 ^ 53 \<Longrightarrow> number_value i = Num i"
  by (simp add: number_value_def nearest_double_def)

lemma digit_not_space: "is_digit c \<Longrightarrow> \<not> is_space c \<and> c \<noteq> CHR ''-'' \<and> c \<noteq> CHR ''+''"
  by (auto simp: is_digit_def is_space_def)

lemma sign_not_space: "\<not> is_space CHR ''-''" "\<not> is_space CHR ''+''" "\<not> is_digit CHR ''-''" "\<not> is_digit CHR ''+''"
  by (simp_all add: is_space_def is_digit_def)

lemma takeWhile_digits:
  assumes "list_all is_digit ds" and "case rest of [] \<Rightarrow> True | c # _ \<Rightarrow> \<not> is_digit c"
  shows "takeWhile is_digit (ds @ rest) = ds"
proof -
  have "takeWhile is_digit rest = []" using assms(2) by (cases rest) simp_all
  with assms(1) show ?thesis by (simp add: takeWhile_append2 list_all_iff)
qed

lemma parseInt_number:
  assumes ws: "list_all is_space ws"
    and sg: "sg = [] \<or> sg = ''-'' \<or> sg = ''+''"
    and ds: "ds \<noteq> []" "list_all is_digit ds"
    and rest: "case rest of [] \<Rightarrow> True | c # _ \<Rightarrow> \<not> is_digit c"
  shows "parseInt (ws @ sg @ ds @ rest)
           = number_value (if sg = ''-'' then - digits_val ds else digits_val ds)"
proof -
  obtain d dr where d: "ds = d # dr" using ds(1) by (cases ds) auto
  then have dd: "is_digit d" using ds(2) by simp
  note nd = digit_not_space [OF dd]
  have hd: "sg @ ds @ rest \<noteq> [] \<and> \<not> is_space (hd (sg @ ds @ rest))"
    using sg d nd sign_not_space by auto
  have dw: "dropWhile is_space (ws @ sg @ ds @ rest) = sg @ ds @ rest"
  proof -
    have "dropWhile is_space (ws @ sg @ ds @ rest) = dropWhile is_space (sg @ ds @ rest)"
      using ws by (simp add: dropWhile_append2 list_all_iff)
    also have "\<dots> = sg @ ds @ rest" using hd by (cases "sg @ ds @ rest") simp_all
    finally show ?thesis .
  qed
  note tw = takeWhile_digits [OF ds(2) rest]
  from sg show ?thesis
  proof (elim disjE)
    assume "sg = []"
    then show ?thesis
      unfolding parseInt_def dw Let_def using tw d nd ds(1) by simp
  next
    assume "sg = ''-''"
    then show ?thesis
      unfolding parseInt_def dw Let_def using tw ds(1) by simp
  next
    assume "sg = ''+''"
    then show ?thesis
      unfolding parseInt_def dw Let_def using tw ds(1) by simp
  qed
qed

lemma parseInt_NaN:
  assumes ws: "list_all is_space ws"
    and sg: "sg = [] \<or> sg = ''-'' \<or> sg = ''+''"
    and rest: "case rest of [] \<Rightarrow> True
               | c # _ \<Rightarrow> \<not> is_digit c \<and> (sg = [] \<longrightarrow> \<not> is_space c \<and> c \<noteq> CHR ''-'' \<and> c \<noteq> CHR ''+'')"
  shows "parseInt (ws @ sg @ rest) = NaN"
proof -
  have hd: "sg @ rest = [] \<or> \<not> is_space (hd (sg @ rest))"
    using sg rest sign_not_space by (cases rest) auto
  have dw: "dropWhile is_space (ws @ sg @ rest) = sg @ rest"
  proof -
    have "dropWhile is_space (ws @ sg @ rest) = dropWhile is_space (sg @ rest)"
      using ws by (simp add: dropWhile_append2 list_all_iff)
    also have "\<dots> = sg @ rest" using hd by (cases "sg @ rest") simp_all
    finally show ?thesis .
  qed
  have tw: "takeWhile is_digit rest = []" using rest by (cases rest) simp_all
  from sg show ?thesis
  proof (elim disjE)
    assume e: "sg = []"
    show ?thesis
    proof (cases rest)
      case Nil
      with e show ?thesis unfolding parseInt_def dw Let_def by simp
    next
      case (Cons c cs)
      with e rest show ?thesis unfolding parseInt_def dw Let_def by simp
    qed
  next
    assume "sg = ''-''"
    then show ?thesis unfolding parseInt_def dw Let_def using tw by simp
  next
    assume "sg = ''+''"
    then show ?thesis unfolding parseInt_def dw Let_def using tw by simp
  qed
qed


lemma digit_char_code: "k < 10 \<Longrightarrow> (of_char (digit_char k) :: nat) = 48 + k"
  by (simp add: digit_char_def)

lemma digits_val_snoc: "digits_val (xs @ [c]) = 10 * digits_val xs + (int (of_char c) - 48)"
  by (simp add: digits_val_def)

lemma show_nat_digits:
  "show_nat n \<noteq> [] \<and> list_all is_digit (show_nat n) \<and> digits_val (show_nat n) = int n"
proof (induction n rule: show_nat.induct)
  case (1 n)
  have d: "is_digit (digit_char k)" "int (of_char (digit_char k)) - 48 = int k" if "k < 10" for k
    using digit_char_code [OF that] that by (simp_all add: is_digit_def)
  show ?case
  proof (cases "n < 10")
    case True
    then show ?thesis using d [of n] by (subst (1 2 3) show_nat.simps) (simp add: digits_val_def)
  next
    case False
    have e: "show_nat n = show_nat (n div 10) @ [digit_char (n mod 10)]"
      using False by (subst show_nat.simps) simp
    from False 1 have IH: "list_all is_digit (show_nat (n div 10))"
      "digits_val (show_nat (n div 10)) = int (n div 10)" by simp_all
    have "int (n div 10) * 10 + int (n mod 10) = int n"
      by (metis div_mult_mod_eq of_nat_add of_nat_mult of_nat_numeral)
    then show ?thesis unfolding e using IH d [of "n mod 10"] by (simp add: digits_val_snoc)
  qed
qed

lemma parseInt_show_int: "parseInt (show_int i) = number_value i"
proof (cases "i < 0")
  case True
  note sn = show_nat_digits [of "nat (- i)"]
  have "parseInt ([] @ ''-'' @ show_nat (nat (- i)) @ [])
          = number_value (if ''-'' = ''-'' then - digits_val (show_nat (nat (- i)))
                          else digits_val (show_nat (nat (- i))))"
    using sn by (intro parseInt_number) simp_all
  with True sn show ?thesis by (simp add: show_int_def)
next
  case False
  note sn = show_nat_digits [of "nat i"]
  have "parseInt ([] @ [] @ show_nat (nat i) @ [])
          = number_value (if [] = ''-'' then - digits_val (show_nat (nat i))
                          else digits_val (show_nat (nat i)))"
    using sn by (intro parseInt_number) simp_all
  with False sn show ?thesis by (simp add: show_int_def)
qed

lemma number_value_sint: "number_value (sint (n :: 54 word)) = Num (sint n)"
proof (cases "sint n = - (2 ^ 53)")
  case True
  have "number_value (- 9007199254740992) = Num (- 9007199254740992)" by code_simp
  with True show ?thesis by simp
next
  case False
  have "- (2 ^ 53) \<le> sint n" "sint n < 2 ^ 53"
    using sint_ge [of n] sint_lt [of n] by simp_all
  with False have "\<bar>sint n\<bar> < 2 ^ 53" by simp
  then show ?thesis by (rule number_value_exact)
qed

lemma show_int_not_empty: "show_int i \<noteq> []"
  using show_nat_digits by (simp add: show_int_def)

lemma digits_val_nonneg: "list_all is_digit ds \<Longrightarrow> 0 \<le> digits_val ds"
proof (induction ds rule: rev_induct)
  case Nil
  show ?case by (simp add: digits_val_def)
next
  case (snoc c cs)
  then show ?case by (simp add: digits_val_snoc is_digit_def)
qed

subsection \<open>One pass through the loop body\<close>

lemma commit_none:
  assumes "rows_in fmt b = None"
  shows "commit_chunk w fmt lim b s = Inl (Throw SyntaxError, s)
       \<or> commit_chunk w fmt lim b s = Inl (Break, s)"
  using assms
  by (cases fmt) (auto simp: commit_chunk_def json_chunk_def split: option.splits json.splits)

lemma loop_body_cases [consumes 1, case_names stop failed bad empty short full]:
  assumes res: "loop_body w a r s = res"
  obtains
    (stop) "js_le (chunkLimit a r s) (Num 0)" "res = Inl (Break, s)"
  | (failed) "\<not> js_le (chunkLimit a r s) (Num 0)"
      "res = Inl (Throw RequestError, emit (FetchChunk (chunkLimit a r s) (offset s)) s)"
      "remote w (format a) (fetch_count (trace s)) (chunkLimit a r s) (offset s) = None"
  | (bad) x b where "\<not> js_le (chunkLimit a r s) (Num 0)"
      "res = Inl (x, emit (FetchChunk (chunkLimit a r s) (offset s)) s)"
      "remote w (format a) (fetch_count (trace s)) (chunkLimit a r s) (offset s) = Some b"
      "rows_in (format a) b = None"
  | (empty) b where "\<not> js_le (chunkLimit a r s) (Num 0)"
      "remote w (format a) (fetch_count (trace s)) (chunkLimit a r s) (offset s) = Some b"
      "rows_in (format a) b = Some 0"
      "res = Inl (Break, emit (FetchChunk (chunkLimit a r s) (offset s)) s)"
  | (short) b n s2 where "\<not> js_le (chunkLimit a r s) (Num 0)"
      "remote w (format a) (fetch_count (trace s)) (chunkLimit a r s) (offset s) = Some b"
      "rows_in (format a) b = Some n" "0 < n" "js_lt (Num n) (chunkLimit a r s)"
      "committed w (format a) b n (emit (FetchChunk (chunkLimit a r s) (offset s)) s) s2"
      "res = Inl (Break, s2)"
  | (full) b n s2 where "\<not> js_le (chunkLimit a r s) (Num 0)"
      "remote w (format a) (fetch_count (trace s)) (chunkLimit a r s) (offset s) = Some b"
      "rows_in (format a) b = Some n" "0 < n" "\<not> js_lt (Num n) (chunkLimit a r s)"
      "committed w (format a) b n (emit (FetchChunk (chunkLimit a r s) (offset s)) s) s2"
      "res = Inr (progress r (s2\<lparr>offset := js_add (offset s2) (chunkLimit a r s)\<rparr>))"
proof -
  let ?lim = "chunkLimit a r s"
  let ?s1 = "emit (FetchChunk ?lim (offset s)) s"
  show thesis
  proof (cases "js_le ?lim (Num 0)")
    case True
    then have "res = Inl (Break, s)" using res by (simp add: loop_body_def)
    with True show thesis by (rule stop)
  next
    case nle: False
    show thesis
    proof (cases "remote w (format a) (fetch_count (trace s)) ?lim (offset s)")
      case None
      then have "res = Inl (Throw RequestError, ?s1)" using res nle by (simp add: loop_body_def)
      with nle show thesis using None by (rule failed)
    next
      case (Some b)
      have body: "res = (case commit_chunk w (format a) ?lim b ?s1 of
                           Inl x \<Rightarrow> Inl x
                         | Inr s2 \<Rightarrow> Inr (progress r (s2\<lparr>offset := js_add (offset s2) ?lim\<rparr>)))"
        using res nle Some by (simp add: loop_body_def Let_def)
      show thesis
      proof (cases "rows_in (format a) b")
        case None
        from commit_none [OF this, of w ?lim ?s1] body
        have "\<exists>x. res = Inl (x, ?s1)" by auto
        then obtain x where "res = Inl (x, ?s1)" ..
        with nle show thesis
          using \<open>remote w (format a) (fetch_count (trace s)) ?lim (offset s) = Some b\<close> None
          by (rule bad)
      next
        case (Some n)
        have nn: "0 \<le> n" using Some by (rule rows_in_nonneg)
        show thesis
        proof (cases "n = 0")
          case True
          with Some have z: "rows_in (format a) b = Some 0" by simp
          from commit_empty [OF z, of w ?lim ?s1] body have "res = Inl (Break, ?s1)" by simp
          with nle \<open>remote w (format a) (fetch_count (trace s)) ?lim (offset s) = Some b\<close> z
          show thesis by (rule empty)
        next
          case False
          with nn have pos: "0 < n" by simp
          from commit_rows [OF Some pos, of w ?s1 ?lim]
          obtain s2 where c: "committed w (format a) b n ?s1 s2"
            and eq: "commit_chunk w (format a) ?lim b ?s1
                      = (if js_lt (Num n) ?lim then Inl (Break, s2) else Inr s2)"
            by blast
          show thesis
          proof (cases "js_lt (Num n) ?lim")
            case True
            with eq body have "res = Inl (Break, s2)" by simp
            with nle \<open>remote w (format a) (fetch_count (trace s)) ?lim (offset s) = Some b\<close>
              Some pos True c show thesis by (rule short)
          next
            case False
            with eq body
            have "res = Inr (progress r (s2\<lparr>offset := js_add (offset s2) ?lim\<rparr>))" by simp
            with nle \<open>remote w (format a) (fetch_count (trace s)) ?lim (offset s) = Some b\<close>
              Some pos False c show thesis by (rule full)
          qed
        qed
      qed
    qed
  qed
qed

subsection \<open>Before the loop\<close>

lemma talk_silent:
  assumes "list_all is_talk t"
  shows "file_content t = []" "fetch_count t = 0" "fetches t = []" "progress_count t = 0"
    "\<not> list_ex touches_file t" "\<not> list_ex is_fetch t"
proof -
  have "file_content t = [] \<and> fetch_count t = 0 \<and> fetches t = [] \<and> progress_count t = 0
      \<and> \<not> list_ex touches_file t \<and> \<not> list_ex is_fetch t"
    using assms
  proof (induction t)
    case Nil
    show ?case by (simp add: file_content_def fetch_count_def fetches_def progress_count_def)
  next
    case (Cons e t)
    then show ?case
      by (cases e) (simp_all add: file_content_def fetch_count_def fetches_def progress_count_def)
  qed
  then show "file_content t = []" "fetch_count t = 0" "fetches t = []" "progress_count t = 0"
    "\<not> list_ex touches_file t" "\<not> list_ex is_fetch t" by simp_all
qed

lemma banner_talk: "list_all is_talk (banner a m)"
  by (simp add: banner_def)

lemma count_and_confirm_talk: "list_all is_talk (snd (count_and_confirm w a m))"
  by (auto simp: count_and_confirm_def Let_def split: sum.splits list.splits)

subsection \<open>Progress lines and the cap\<close>

lemma progress_emit: "progress r s = emit (progress_line r (downloadedRows s)) s"
  by (simp add: progress_def progress_line_def)

lemma chunkLimit_cong:
  "downloadedRows s1 = downloadedRows s \<Longrightarrow> chunkLimit a r s1 = chunkLimit a r s"
  by (simp add: chunkLimit_def)

lemma chunkLimit_after_short:
  assumes "js_lt (Num n) (chunkLimit a r s)" "0 < n" "downloadedRows s2 = downloadedRows s + n"
  shows "\<not> js_le (chunkLimit a r s2) (Num 0)"
proof (cases "truthy_opt r")
  case False
  then have "chunkLimit a r s2 = chunkLimit a r s" by (simp add: chunkLimit_def)
  with assms show ?thesis by (cases "chunkLimit a r s") auto
next
  case True
  then obtain R where r: "r = Some R" by (cases r) auto
  show ?thesis
    using assms True r
    by (cases "chunkSize a"; cases R) (auto simp: chunkLimit_def)
qed

lemma pass_continues:
  assumes "loop_body w a r s = Inr s1"
  shows "\<exists>ws. trace s1 = trace s @ FetchChunk (chunkLimit a r s) (offset s) # map Write ws
                          @ [progress_line r (downloadedRows s1)]"
  using assms
proof (cases rule: loop_body_cases)
  case (full b n s2)
  then show ?thesis by (auto simp: committed_def progress_emit)
qed simp_all

lemma fetch_count_simps [simp]:
  "fetch_count [] = 0"
  "fetch_count (FetchChunk l off # t) = Suc (fetch_count t)"
  "fetch_count (Write x # t) = fetch_count t"
  by (simp_all add: fetch_count_def)

lemma progress_count_simps [simp]:
  "progress_count [] = 0"
  "progress_count (FetchChunk l off # t) = progress_count t"
  "progress_count (Write x # t) = progress_count t"
  "progress_count (Progress n R # t) = Suc (progress_count t)"
  "progress_count (Downloaded n # t) = Suc (progress_count t)"
  by (simp_all add: progress_count_def)

lemma pass_ends:
  assumes "loop_body w a r s = Inl (x, s2)"
  shows "progress_count (trace s2) = progress_count (trace s)
       \<and> (\<exists>ext. trace s2 = trace s @ ext
             \<and> fetch_count ext = (if js_le (chunkLimit a r s2) (Num 0) then 0 else 1))"
  using assms
proof (cases rule: loop_body_cases)
  case stop
  then have "s2 = s" by simp
  with stop(1) show ?thesis by (intro conjI exI [of _ "[]"]) simp_all
next
  case failed
  let ?e = "FetchChunk (chunkLimit a r s) (offset s)"
  from failed have s2: "s2 = emit ?e s" by simp
  then have "chunkLimit a r s2 = chunkLimit a r s" by (intro chunkLimit_cong) simp
  with failed(1) s2 show ?thesis by (intro conjI exI [of _ "[?e]"]) simp_all
next
  case (bad y b)
  let ?e = "FetchChunk (chunkLimit a r s) (offset s)"
  from bad have s2: "s2 = emit ?e s" by simp
  then have "chunkLimit a r s2 = chunkLimit a r s" by (intro chunkLimit_cong) simp
  with bad(1) s2 show ?thesis by (intro conjI exI [of _ "[?e]"]) simp_all
next
  case (empty b)
  let ?e = "FetchChunk (chunkLimit a r s) (offset s)"
  from empty have s2: "s2 = emit ?e s" by simp
  then have "chunkLimit a r s2 = chunkLimit a r s" by (intro chunkLimit_cong) simp
  with empty(1) s2 show ?thesis by (intro conjI exI [of _ "[?e]"]) simp_all
next
  case (short b n s2')
  let ?e = "FetchChunk (chunkLimit a r s) (offset s)"
  from short have s2: "s2 = s2'" by simp
  from short(6) obtain ws where d: "downloadedRows s2' = downloadedRows s + n"
    and t: "trace s2' = trace s @ ?e # map Write ws"
    by (auto simp: committed_def)
  have "\<not> js_le (chunkLimit a r s2') (Num 0)"
    using chunkLimit_after_short [OF short(5) short(4) d] .
  with t s2 show ?thesis by (intro conjI exI [of _ "?e # map Write ws"]) simp_all
qed simp_all

lemma run_progress:
  assumes "download_loop w a r s = Some (x, s')"
  shows "\<exists>ext. trace s' = trace s @ ext
          \<and> fetch_count ext
              = progress_count ext + (if js_le (chunkLimit a r s') (Num 0) then 0 else 1)"
proof (rule loop_rule [OF assms, where I = "\<lambda>s1. \<exists>ext. trace s1 = trace s @ ext
          \<and> fetch_count ext = progress_count ext"])
  show "\<exists>ext. trace s = trace s @ ext \<and> fetch_count ext = progress_count ext"
    by (intro exI [of _ "[]"]) simp
next
  fix s1 s2
  assume "\<exists>ext. trace s1 = trace s @ ext \<and> fetch_count ext = progress_count ext"
    and "loop_body w a r s1 = Inr s2"
  then obtain ext ws where "trace s1 = trace s @ ext" "fetch_count ext = progress_count ext"
    "trace s2 = trace s1 @ FetchChunk (chunkLimit a r s1) (offset s1) # map Write ws
                  @ [progress_line r (downloadedRows s2)]"
    using pass_continues by blast
  then show "\<exists>ext. trace s2 = trace s @ ext \<and> fetch_count ext = progress_count ext"
    by (intro exI [of _ "ext @ FetchChunk (chunkLimit a r s1) (offset s1) # map Write ws
                  @ [progress_line r (downloadedRows s2)]"])
       (simp add: progress_line_def fetch_count_def progress_count_def)
next
  fix s1 y s2
  assume "\<exists>ext. trace s1 = trace s @ ext \<and> fetch_count ext = progress_count ext"
    and "loop_body w a r s1 = Inl (y, s2)"
  then obtain ext e2 where "trace s1 = trace s @ ext" "fetch_count ext = progress_count ext"
    "progress_count (trace s2) = progress_count (trace s1)"
    "trace s2 = trace s1 @ e2"
    "fetch_count e2 = (if js_le (chunkLimit a r s2) (Num 0) then 0 else 1)"
    using pass_ends by blast
  then show "\<exists>ext. trace s2 = trace s @ ext
          \<and> fetch_count ext
              = progress_count ext + (if js_le (chunkLimit a r s2) (Num 0) then 0 else 1)"
    by (intro exI [of _ "ext @ e2"]) auto
qed

subsection \<open>Runs that end normally\<close>

lemma count_and_confirm_stops:
  "count_and_confirm w a m = (Inl out, t2) \<Longrightarrow> out \<noteq> Resolved"
  by (auto simp: count_and_confirm_def Let_def split: if_splits sum.splits list.splits)

lemma downloadDataset_Resolved:
  assumes "downloadDataset w a = Some (Resolved, t)"
  obtains m tot t2 s where "fetchMetadata w = Inr m"
    and "count_and_confirm w a m = (Inr tot, t2)"
    and "download_loop w a (if truthy_opt (limit a) then limit a else tot)
           (start_state a (banner a m @ t2)) = Some (Break, s)"
    and "t = finish a s"
proof (cases "fetchMetadata w")
  case (Inl e)
  with assms show ?thesis by (simp add: downloadDataset_def)
next
  case (Inr m)
  obtain res t2 where cc: "count_and_confirm w a m = (res, t2)" by (cases "count_and_confirm w a m")
  show ?thesis
  proof (cases res)
    case (Inl out)
    with assms Inr cc count_and_confirm_stops [of w a m out t2] show ?thesis
      by (simp add: downloadDataset_def)
  next
    case (Inr tot)
    let ?r = "if truthy_opt (limit a) then limit a else tot"
    let ?s0 = "start_state a (banner a m @ t2)"
    from assms \<open>fetchMetadata w = Inr m\<close> cc Inr
    have eq: "(case download_loop w a ?r ?s0 of None \<Rightarrow> None
               | Some (Throw e, s) \<Rightarrow> Some (Rejected e, trace s)
               | Some (Break, s) \<Rightarrow> Some (Resolved, finish a s)) = Some (Resolved, t)"
      by (simp add: downloadDataset_def Let_def)
    then obtain x s where run: "download_loop w a ?r ?s0 = Some (x, s)"
      by (cases "download_loop w a ?r ?s0") auto
    with eq have "x = Break" "t = finish a s" by (cases x; simp)+
    with run \<open>fetchMetadata w = Inr m\<close> cc Inr that show ?thesis by simp
  qed
qed

subsection \<open>The array in the file\<close>

lemma join_Nil [simp]: "join sp [] = []"
  by (simp add: join_def)

lemma join_snoc:
  "xs \<noteq> [] \<Longrightarrow> join sp (xs @ ys) = join sp xs @ concat (map (\<lambda>z. sp @ z) ys)"
  by (cases xs) (simp_all add: join_def)

lemma framed_commit:
  assumes "framed w s" "committed w Json b n s s2" "0 < n" "rows_in Json b = Some n"
  shows "framed w s2"
proof -
  from assms(1) obtain rows where f: "file_content (trace s)
      = [CHR ''['', nl] @ join [CHR '','', nl] (map (row_text w) rows)"
    and first: "isFirstChunk s \<longleftrightarrow> rows = []"
    and len: "int (length rows) = downloadedRows s"
    by (auto simp: framed_def)
  from assms(4) obtain rs where p: "parsed b = Some (JArr rs)" and n: "n = int (length rs)"
    by (auto split: option.splits json.splits)
  with assms(3) have ne: "rs \<noteq> []" by auto
  from assms(2) obtain ws where nf: "\<not> isFirstChunk s2"
    and d2: "downloadedRows s2 = downloadedRows s + n"
    and t: "trace s2 = trace s @ map Write ws"
    and c: "concat ws = page_text w Json (isFirstChunk s) b"
    by (auto simp: committed_def)
  have "file_content (trace s2)
      = [CHR ''['', nl] @ join [CHR '','', nl] (map (row_text w) (rows @ rs))"
  proof (cases "rows = []")
    case True
    with first f t c p show ?thesis by simp
  next
    case False
    with first f t c p show ?thesis by (simp add: join_snoc comp_def)
  qed
  with nf ne len d2 n show ?thesis unfolding framed_def by (intro exI [of _ "rows @ rs"]) simp
qed

lemma framed_emit: "framed w s \<Longrightarrow> \<not> touches_file e \<Longrightarrow> framed w (emit e s)"
  by (cases e) (auto simp: framed_def file_content_def)

lemma framed_pass:
  assumes "format a = Json" "framed w s"
  shows "loop_body w a r s = Inr s1 \<Longrightarrow> framed w s1"
    and "loop_body w a r s = Inl (x, s1) \<Longrightarrow> framed w s1"
proof -
  let ?e = "FetchChunk (chunkLimit a r s) (offset s)"
  have fe: "framed w (emit ?e s)" using assms(2) by (rule framed_emit) simp
  {
    assume "loop_body w a r s = Inr s1"
    then show "framed w s1"
    proof (cases rule: loop_body_cases)
      case (full b n s2)
      from framed_commit [OF fe] full(6,4,3) assms(1) have "framed w s2" by simp
      then have "framed w (s2\<lparr>offset := js_add (offset s2) (chunkLimit a r s)\<rparr>)"
        by (simp add: framed_def)
      then have "framed w (progress r (s2\<lparr>offset := js_add (offset s2) (chunkLimit a r s)\<rparr>))"
        unfolding progress_emit by (rule framed_emit) (simp add: progress_line_def)
      with full(7) show ?thesis by simp
    qed simp_all
  }
  {
    assume "loop_body w a r s = Inl (x, s1)"
    then show "framed w s1"
    proof (cases rule: loop_body_cases)
      case (short b n s2)
      from framed_commit [OF fe] short(6,4,3) assms(1) have "framed w s2" by simp
      with short(7) show ?thesis by simp
    qed (use assms(2) fe in simp_all)
  }
qed

lemma json_run:
  assumes "format a = Json" and "downloadDataset w a = Some (Resolved, t)"
  shows "\<exists>rows. file_content t
           = [CHR ''['', nl] @ join [CHR '','', nl] (map (row_text w) rows) @ [nl, CHR '']'', nl]
         \<and> last t = Log (Complete (int (length rows)) (outputFile a))"
proof -
  from assms(2) obtain m tot t2 s
    where cc: "count_and_confirm w a m = (Inr tot, t2)"
      and run: "download_loop w a (if truthy_opt (limit a) then limit a else tot)
           (start_state a (banner a m @ t2)) = Some (Break, s)"
      and t: "t = finish a s"
    by (rule downloadDataset_Resolved)
  have "list_all is_talk t2" using count_and_confirm_talk [of w a m] cc by simp
  then have "file_content (banner a m @ t2) = []"
    using talk_silent(1) [of "banner a m @ t2"] banner_talk [of a m] by simp
  then have init: "framed w (start_state a (banner a m @ t2))"
    unfolding framed_def using assms(1)
    by (intro exI [of _ "[]"]) (simp add: start_state_def open_bracket_def join_def file_content_def)
  have "framed w s"
    by (rule loop_rule [OF run, where I = "framed w" and Q = "\<lambda>x. framed w"])
       (use init framed_pass [OF assms(1)] in blast)+
  then show ?thesis
    unfolding framed_def t finish_def using assms(1)
    by (auto simp: close_bracket_def file_content_def)
qed

subsection \<open>The order of effects\<close>

lemma loop_extends:
  "download_loop w a r s = Some (x, s') \<Longrightarrow> \<exists>ext. trace s' = trace s @ ext"
  using run_progress by blast

lemma main_shape:
  assumes "main w a = Some (c, t)"
  shows "(\<exists>e. fetchMetadata w = Inl e \<and> c = 1
             \<and> t = [Log (FetchingMetadata (datasetId a)), GetMetadata, LogError e])
       \<or> (\<exists>m t2. fetchMetadata w = Inr m
             \<and> ((count_and_confirm w a m = (Inl (Exit c), t2) \<and> t = banner a m @ t2)
                \<or> (\<exists>e. count_and_confirm w a m = (Inl (Rejected e), t2) \<and> c = 1
                       \<and> t = banner a m @ t2 @ [LogError e])
                \<or> (\<exists>tot ext. count_and_confirm w a m = (Inr tot, t2)
                       \<and> t = banner a m @ t2 @ [Log (DownloadingTo (outputFile a)),
                                                 CreateWriteStream (outputFile a)] @ ext)))"
proof (cases "fetchMetadata w")
  case (Inl e)
  with assms show ?thesis by (auto simp: main_def downloadDataset_def)
next
  case (Inr m)
  obtain res t2 where cc: "count_and_confirm w a m = (res, t2)" by (cases "count_and_confirm w a m")
  show ?thesis
  proof (cases res)
    case (Inl out)
    with assms Inr cc count_and_confirm_stops [of w a m out t2] show ?thesis
      by (cases out) (auto simp: main_def downloadDataset_def)
  next
    case tot: (Inr tot)
    let ?r = "if truthy_opt (limit a) then limit a else tot"
    let ?s0 = "start_state a (banner a m @ t2)"
    from assms Inr cc tot obtain x s where run: "download_loop w a ?r ?s0 = Some (x, s)"
      by (cases "download_loop w a ?r ?s0") (auto simp: main_def downloadDataset_def Let_def)
    from loop_extends [OF run] obtain ext where ext: "trace s = trace ?s0 @ ext" ..
    from assms Inr cc tot run
    have "t = trace s @ (case x of Break \<Rightarrow> close_bracket a
                       @ [EndStream, Log (Complete (downloadedRows s) (outputFile a))]
                     | Throw e \<Rightarrow> [LogError e])"
      by (cases x) (auto simp: main_def downloadDataset_def Let_def finish_def)
    with ext have "\<exists>ext. t = banner a m @ t2 @ [Log (DownloadingTo (outputFile a)),
                                                 CreateWriteStream (outputFile a)] @ ext"
      by (simp add: start_state_def)
    with Inr cc tot show ?thesis by blast
  qed
qed




lemma banner_meta: "\<exists>rest. banner a m = Log (FetchingMetadata (datasetId a)) # GetMetadata # rest"
  by (simp add: banner_def)



lemma list_ex_last: "t2 \<noteq> [] \<Longrightarrow> last (p @ t2) = last t2"
  by simp




lemma fetchMetadata_fails:
  "metadataResponse w = None \<Longrightarrow> fetchMetadata w = Inl RequestError"
  "metadataResponse w = Some b \<Longrightarrow> parsed b = None \<Longrightarrow> fetchMetadata w = Inl MetadataError"
  by (simp_all add: fetchMetadata_def)

subsection \<open>Passes and runs against an exact source\<close>

lemma fetches_simps [simp]:
  "fetches [] = []"
  "fetches (FetchChunk l off # t) = (l, off) # fetches t"
  "fetches (Write x # t) = fetches t"
  "fetches (Progress n R # t) = fetches t"
  "fetches (Downloaded n # t) = fetches t"
  by (simp_all add: fetches_def)

lemma progress_fields [simp]:
  "offset (progress r s) = offset s"
  "downloadedRows (progress r s) = downloadedRows s"
  "isFirstChunk (progress r s) = isFirstChunk s"
  "fetches (trace (progress r s)) = fetches (trace s)"
  by (simp_all add: progress_emit progress_line_def)

text \<open>One pass against an exact source.\<close>

lemma pass_exact:
  assumes src: "exact_source w (format a) N"
    and lim: "chunkLimit a r s = Num c" "0 < c"
    and off: "offset s = Num d" "0 \<le> d"
  shows "\<exists>s1. downloadedRows s1 = downloadedRows s + min c (max 0 (N - d))
            \<and> fetches (trace s1) = fetches (trace s) @ [(Num c, Num d)]
            \<and> loop_body w a r s
                = (if min c (max 0 (N - d)) < c then Inl (Break, s1) else Inr s1)
            \<and> (\<not> min c (max 0 (N - d)) < c \<longrightarrow> offset s1 = Num (d + c))"
proof -
  let ?n = "min c (max 0 (N - d))"
  let ?e = "FetchChunk (Num c) (Num d)"
  from src lim(2) off(2) obtain b
    where b: "remote w (format a) (fetch_count (trace s)) (Num c) (Num d) = Some b"
      and n: "rows_in (format a) b = Some ?n"
    unfolding exact_source_def by blast
  obtain res where res: "loop_body w a r s = res" by simp
  from res show ?thesis
  proof (cases rule: loop_body_cases)
    case stop
    with lim show ?thesis by simp
  next
    case failed
    with b lim off show ?thesis by simp
  next
    case (bad x b')
    with b n lim off show ?thesis by simp
  next
    case (empty b')
    with b n lim off have z: "?n = 0" by simp
    with lim(2) have "?n < c" by simp
    with empty(4) z res lim off show ?thesis
      by (intro exI [of _ "emit ?e s"]) simp
  next
    case (short b' n' s2)
    with b n lim off have eq: "n' = ?n" and lt: "?n < c" by simp_all
    from short(6) lim off eq
    have "downloadedRows s2 = downloadedRows s + ?n"
      "fetches (trace s2) = fetches (trace s) @ [(Num c, Num d)]"
      by (auto simp: committed_def)
    with short(7) res lt show ?thesis by (intro exI [of _ s2]) simp
  next
    case (full b' n' s2)
    with b n lim off have eq: "n' = ?n" and nlt: "\<not> ?n < c" by simp_all
    let ?s1 = "progress r (s2\<lparr>offset := js_add (offset s2) (chunkLimit a r s)\<rparr>)"
    from full(6) lim off eq
    have "downloadedRows ?s1 = downloadedRows s + ?n"
      "fetches (trace ?s1) = fetches (trace s) @ [(Num c, Num d)]"
      "offset ?s1 = Num (d + c)"
      by (auto simp: committed_def)
    with full(7) res nlt show ?thesis by (intro exI [of _ ?s1]) simp
  qed
qed

lemma ceil_div_bounds:
  assumes "0 < P" "0 < L"
  shows "0 < ceil_div L P" "L \<le> ceil_div L P * P" "(ceil_div L P - 1) * P < L"
proof -
  let ?x = "L + P - 1"
  let ?q = "?x div P"
  have eq: "?x = ?q * P + ?x mod P" by simp
  have m: "0 \<le> ?x mod P" "?x mod P < P" using assms(1) by simp_all
  have "P \<le> ?x" using assms by simp
  then have "0 < ?q" using assms(1) by (simp only: pos_imp_zdiv_pos_iff)
  then show "0 < ceil_div L P" by (simp add: ceil_div_def)
  from eq m show "L \<le> ceil_div L P * P" unfolding ceil_div_def by linarith
  have "(?q - 1) * P = ?q * P - P" by (simp add: algebra_simps)
  with eq m show "(ceil_div L P - 1) * P < L" unfolding ceil_div_def by linarith
qed

lemma chunkLimit_known:
  "chunkSize a = Num P \<Longrightarrow> L \<noteq> 0 \<Longrightarrow>
   chunkLimit a (Some (Num L)) s = Num (min P (L - downloadedRows s))"
  by (simp add: chunkLimit_def)


lemma loop_stop:
  "js_le (chunkLimit a r s) (Num 0) \<Longrightarrow> download_loop w a r s = Some (Break, s)"
  by (subst download_loop.simps) (simp add: loop_body_def)

lemma loop_capped:
  assumes src: "exact_source w (format a) N"
    and P: "chunkSize a = Num P" "0 < P"
    and L: "0 < L" "L \<le> N"
    and n: "L \<le> int n * P" "(int n - 1) * P < L"
  shows "j \<le> n \<Longrightarrow> int j * P \<le> L \<Longrightarrow> offset s = Num (int j * P)
         \<Longrightarrow> downloadedRows s = int j * P
         \<Longrightarrow> \<exists>s'. download_loop w a (Some (Num L)) s = Some (Break, s')
                \<and> downloadedRows s' = L
                \<and> fetches (trace s')
                    = fetches (trace s)
                      @ map (\<lambda>k. (Num (min P (L - int k * P)), Num (int k * P))) [j..<n]"
proof (induction "n - j" arbitrary: j s)
  case 0
  then have "j = n" by simp
  with 0 n(1) have d: "downloadedRows s = L" by simp
  have "chunkLimit a (Some (Num L)) s = Num 0"
    using chunkLimit_known [OF P(1), of L s] L(1) P(2) d by simp
  then have "download_loop w a (Some (Num L)) s = Some (Break, s)" by (intro loop_stop) simp
  with d \<open>j = n\<close> show ?case by simp
next
  case (Suc m)
  then have jn: "j < n" by simp
  let ?d = "int j * P"
  let ?c = "min P (L - ?d)"
  have "?d \<le> (int n - 1) * P" using jn P(2) by (simp add: mult_right_mono)
  with n(2) have dL: "?d < L" by simp
  then have c: "0 < ?c" using P(2) by simp
  have lim: "chunkLimit a (Some (Num L)) s = Num ?c"
    using chunkLimit_known [OF P(1), of L s] L(1) Suc.prems(4) by simp
  have rows: "min ?c (max 0 (N - ?d)) = ?c" using L(2) by simp
  have d0: "0 \<le> ?d" using P(2) by simp
  from pass_exact [OF src lim c Suc.prems(3) d0] rows
  obtain s1 where s1: "downloadedRows s1 = ?d + ?c"
      "fetches (trace s1) = fetches (trace s) @ [(Num ?c, Num ?d)]"
      "loop_body w a (Some (Num L)) s = Inr s1" "offset s1 = Num (?d + ?c)"
    using Suc.prems(4) by auto
  have step: "download_loop w a (Some (Num L)) s = download_loop w a (Some (Num L)) s1"
    by (subst download_loop.simps) (simp add: s1(3))
  have upt: "[j..<n] = j # [Suc j..<n]" using jn by (simp add: upt_conv_Cons)
  show ?case
  proof (cases "Suc j < n")
    case True
    have "int (Suc j) * P \<le> (int n - 1) * P" using True P(2) by (simp add: mult_right_mono)
    with n(2) have le: "int (Suc j) * P \<le> L" by simp
    then have cP: "?c = P" by (simp add: algebra_simps)
    have nxt: "?d + ?c = int (Suc j) * P" unfolding cP by (simp add: algebra_simps)
    from Suc.hyps(2) have m: "m = n - Suc j" by simp
    from Suc.hyps(1) [OF m _ le, of s1] True s1(1,4) nxt
    obtain s' where "download_loop w a (Some (Num L)) s1 = Some (Break, s')"
      "downloadedRows s' = L"
      "fetches (trace s')
         = fetches (trace s1)
           @ map (\<lambda>k. (Num (min P (L - int k * P)), Num (int k * P))) [Suc j..<n]"
      by auto
    with step s1(2) upt show ?thesis by simp
  next
    case False
    with jn have last: "n = Suc j" by simp
    with n(1) have "L - ?d \<le> P" by (simp add: algebra_simps)
    then have cL: "?c = L - ?d" by simp
    with s1(1) have d1: "downloadedRows s1 = L" by simp
    have "chunkLimit a (Some (Num L)) s1 = Num 0"
      using chunkLimit_known [OF P(1), of L s1] L(1) P(2) d1 by simp
    then have "download_loop w a (Some (Num L)) s1 = Some (Break, s1)" by (intro loop_stop) simp
    with step d1 s1(2) last show ?thesis by simp
  qed
qed

lemma file_content_simps [simp]:
  "file_content [] = []"
  "file_content (Write x # t) = x @ file_content t"
  "file_content (FetchChunk l off # t) = file_content t"
  "file_content (Progress n R # t) = file_content t"
  "file_content (Downloaded n # t) = file_content t"
  by (simp_all add: file_content_def)

lemma fetch_count_progress [simp]:
  "fetch_count (Progress n R # t) = fetch_count t"
  "fetch_count (Downloaded n # t) = fetch_count t"
  by (simp_all add: fetch_count_def)



text \<open>One pass in which the page \<open>b\<close>, of \<open>n\<close> rows by the loop's count, arrives.\<close>

lemma pass_page:
  assumes b: "remote w (format a) (fetch_count (trace s)) (chunkLimit a r s) (offset s) = Some b"
    and n: "rows_in (format a) b = Some n"
    and lim: "\<not> js_le (chunkLimit a r s) (Num 0)"
  shows "\<exists>s1. loop_body w a r s
                = (if n = 0 \<or> js_lt (Num n) (chunkLimit a r s) then Inl (Break, s1) else Inr s1)
            \<and> downloadedRows s1 = downloadedRows s + n
            \<and> fetches (trace s1) = fetches (trace s) @ [(chunkLimit a r s, offset s)]
            \<and> fetch_count (trace s1) = Suc (fetch_count (trace s))
            \<and> file_content (trace s1)
                = file_content (trace s)
                  @ (if n = 0 then [] else page_text w (format a) (isFirstChunk s) b)
            \<and> isFirstChunk s1 = (isFirstChunk s \<and> n = 0)
            \<and> offset s1 = (if n = 0 \<or> js_lt (Num n) (chunkLimit a r s) then offset s
                            else js_add (offset s) (chunkLimit a r s))"
proof -
  let ?e = "FetchChunk (chunkLimit a r s) (offset s)"
  obtain res where res: "loop_body w a r s = res" by simp
  from res show ?thesis
  proof (cases rule: loop_body_cases)
    case stop
    with lim show ?thesis by simp
  next
    case failed
    with b show ?thesis by simp
  next
    case (bad x b')
    with b n show ?thesis by simp
  next
    case (empty b')
    with b n have z: "n = 0" by simp
    with empty(4) res show ?thesis by (intro exI [of _ "emit ?e s"]) simp
  next
    case (short b' n' s2)
    with b n have eq: "n' = n" "b' = b" and lt: "js_lt (Num n) (chunkLimit a r s)" and pos: "0 < n"
      by simp_all
    from short(6) eq
    have "downloadedRows s2 = downloadedRows s + n"
      "fetches (trace s2) = fetches (trace s) @ [(chunkLimit a r s, offset s)]"
      "fetch_count (trace s2) = Suc (fetch_count (trace s))"
      "file_content (trace s2) = file_content (trace s) @ page_text w (format a) (isFirstChunk s) b"
      "\<not> isFirstChunk s2" "offset s2 = offset s"
      by (auto simp: committed_def)
    with short(7) res lt pos show ?thesis by (intro exI [of _ s2]) simp
  next
    case (full b' n' s2)
    with b n have eq: "n' = n" "b' = b" and nlt: "\<not> js_lt (Num n) (chunkLimit a r s)"
      and pos: "0 < n" by simp_all
    let ?s1 = "progress r (s2\<lparr>offset := js_add (offset s2) (chunkLimit a r s)\<rparr>)"
    from full(6) eq
    have "downloadedRows ?s1 = downloadedRows s + n"
      "fetches (trace ?s1) = fetches (trace s) @ [(chunkLimit a r s, offset s)]"
      "fetch_count (trace ?s1) = Suc (fetch_count (trace s))"
      "file_content (trace ?s1) = file_content (trace s) @ page_text w (format a) (isFirstChunk s) b"
      "\<not> isFirstChunk ?s1" "offset ?s1 = js_add (offset s) (chunkLimit a r s)"
      by (auto simp: committed_def progress_emit progress_line_def)
    with full(7) res nlt pos show ?thesis by (intro exI [of _ ?s1]) simp
  qed
qed

subsection \<open>Unfolding the loop\<close>

lemma loop_ends_after:
  assumes "loop_body w a r s = Inl (x, s1)"
  shows "download_loop w a r s = Some (x, s1)"
  by (subst download_loop.simps) (simp add: assms)

lemma loop_goes_on:
  assumes "loop_body w a r s = Inr s1"
  shows "download_loop w a r s = download_loop w a r s1"
  by (subst download_loop.simps) (simp add: assms)

lemma chunkLimit_ten:
  assumes "chunkSize a = Num 10" "\<not> truthy_opt r \<or> (\<exists>R. r = Some (Num R) \<and> 30 \<le> R)"
    "downloadedRows s \<le> 20"
  shows "chunkLimit a r s = Num 10"
  using assms by (auto simp: chunkLimit_def)

subsection \<open>Downloads against an exact source\<close>

lemma download_from_loop:
  assumes "fetchMetadata w = Inr m" "count_and_confirm w a m = (Inr tot, t2)"
    "download_loop w a (if truthy_opt (limit a) then limit a else tot)
       (start_state a (banner a m @ t2)) = Some (Break, s)"
  shows "downloadDataset w a = Some (Resolved, finish a s)"
  by (simp add: downloadDataset_def Let_def assms)

lemma finish_reads [simp]:
  "fetches (finish a s) = fetches (trace s)"
  "last (finish a s) = Log (Complete (downloadedRows s) (outputFile a))"
  by (simp_all add: finish_def fetches_def close_bracket_def)

lemma start_state_reads:
  assumes "list_all is_talk t"
  shows "offset (start_state a t) = Num (int 0 * P)" "downloadedRows (start_state a t) = int 0 * P"
    "fetches (trace (start_state a t)) = []"
  using talk_silent(3) [OF assms]
  by (simp_all add: start_state_def open_bracket_def fetches_def)

lemma no_count:
  "truthy_opt (limit a) \<or> noConfirm a \<Longrightarrow> count_and_confirm w a m = (Inr None, [])"
  by (auto simp: count_and_confirm_def)


lemma ceil_div_nat: "0 < P \<Longrightarrow> 0 < L \<Longrightarrow> int (nat (ceil_div L P)) = ceil_div L P"
  using ceil_div_bounds(1) [of P L] by simp

text \<open>The download with a known total \<open>L\<close> of rows to fetch, against an exact source.\<close>

lemma capped_download:
  assumes meta: "fetchMetadata w = Inr m"
    and cc: "count_and_confirm w a m = (Inr tot, t2)"
    and r: "(if truthy_opt (limit a) then limit a else tot) = Some (Num L)"
    and L: "0 < L" "L \<le> N"
    and size: "chunkSize a = Num P" "0 < P"
    and src: "exact_source w (format a) N"
  shows "\<exists>t. downloadDataset w a = Some (Resolved, t)
           \<and> last t = Log (Complete L (outputFile a))
           \<and> fetches t = capped_requests P L"
proof -
  let ?n = "nat (ceil_div L P)"
  let ?s0 = "start_state a (banner a m @ t2)"
  have n: "L \<le> int ?n * P" "(int ?n - 1) * P < L"
    using ceil_div_bounds [OF size(2) L(1)] by simp_all
  have talk: "list_all is_talk (banner a m @ t2)"
    using banner_talk [of a m] count_and_confirm_talk [of w a m] cc by simp
  note st = start_state_reads(1,2) [OF talk, of a P] start_state_reads(3) [OF talk, of a]
  have "int 0 * P \<le> L" using L(1) by simp
  from loop_capped [OF src size L n _ this st(1,2)]
  obtain s' where s': "download_loop w a (Some (Num L)) ?s0 = Some (Break, s')"
    "downloadedRows s' = L"
    "fetches (trace s') = fetches (trace ?s0)
        @ map (\<lambda>k. (Num (min P (L - int k * P)), Num (int k * P))) [0..<?n]"
    by auto
  from download_from_loop [OF meta cc] s'(1) r
  have "downloadDataset w a = Some (Resolved, finish a s')" by simp
  with s'(2,3) st(3) show ?thesis by (simp add: capped_requests_def)
qed


lemma capped_requests_facts:
  assumes "0 < P" "0 < L"
  shows "int (length (capped_requests P L)) = ceil_div L P"
    and "L < P \<Longrightarrow> capped_requests P L = [(Num L, Num 0)]"
    and "\<forall>(c, off) \<in> set (capped_requests P L). js_le c (js_sub (Num L) off) \<and> js_le c (Num P)"
proof -
  show "int (length (capped_requests P L)) = ceil_div L P"
    using ceil_div_nat [OF assms] by (simp add: capped_requests_def)
  show "\<forall>(c, off) \<in> set (capped_requests P L). js_le c (js_sub (Num L) off) \<and> js_le c (Num P)"
    by (auto simp: capped_requests_def)
  assume "L < P"
  with assms have "ceil_div L P = 1" by (simp add: ceil_div_def div_pos_pos_trivial int_div_pos_eq [of _ _ 1 "L - 1"])
  then show "capped_requests P L = [(Num L, Num 0)]"
    using \<open>L < P\<close> by (simp add: capped_requests_def)
qed

subsection \<open>The simulated source is exact\<close>

lemma page_length:
  "0 < c \<Longrightarrow> 0 \<le> off \<Longrightarrow> int (length (page xs c off)) = min c (max 0 (int (length xs) - off))"
  by (auto simp: page_def min_def max_def)

lemma source_exact_json: "exact_source (sim d reply) Json (int (length (entries d)))"
  by (auto simp: exact_source_def sim_def json_body_def page_length Let_def)

lemma split_lines_plain: "nl \<notin> set l \<Longrightarrow> split_lines l = [l]"
  by (induction l) auto

lemma split_lines_app: "nl \<notin> set l \<Longrightarrow> split_lines (l @ nl # x) = l # split_lines x"
  by (induction l) (auto split: list.splits)

lemma join_Cons2: "join sp (l # l' # ls) = l @ sp @ join sp (l' # ls)"
  by (simp add: join_def)

lemma split_join:
  "\<forall>l \<in> set (l0 # ls). nl \<notin> set l \<Longrightarrow> split_lines (join [nl] (l0 # ls)) = l0 # ls"
proof (induction ls arbitrary: l0)
  case Nil
  then show ?case by (simp add: join_def split_lines_plain)
next
  case (Cons l' ls)
  then show ?case by (simp add: join_Cons2 split_lines_app)
qed

lemma source_exact_csv:
  assumes "\<not> terminated d" "nl \<notin> set (header d)" "\<forall>e \<in> set (entries d). nl \<notin> set (fst e)"
  shows "exact_source (sim d reply) Csv (int (length (entries d)))"
proof -
  have "split_lines (csv_text False (header d # map fst (page (entries d) c off)))
          = header d # map fst (page (entries d) c off)" for c off
    unfolding csv_text_def using assms(2,3)
    by (simp only: append_Nil2 if_False) (rule split_join, auto simp: page_def dest: in_set_takeD in_set_dropD)
  then show ?thesis
    using assms(1) by (auto simp: exact_source_def sim_def page_length Let_def)
qed

lemma show_nat_no_nl: "nl \<notin> set (show_nat n)"
proof (induction n rule: show_nat.induct)
  case (1 n)
  have d: "digit_char k \<noteq> nl" if "k < 10" for k
  proof
    assume "digit_char k = nl"
    then have "(of_char (digit_char k) :: nat) = of_char nl" by simp
    with that show False by (simp add: digit_char_def nl_def)
  qed
  show ?case
  proof (cases "n < 10")
    case True
    then show ?thesis using d [of n] by (subst show_nat.simps) simp
  next
    case False
    then show ?thesis using 1 d [of "n mod 10"] by (subst show_nat.simps) simp
  qed
qed

lemma numbered_exact:
  "exact_source (sim (numbered False n) reply) fmt (int n)"
proof -
  have len: "length (entries (numbered False n)) = n" by (simp add: numbered_def)
  show ?thesis
  proof (cases fmt)
    case Json
    with source_exact_json [of "numbered False n" reply] show ?thesis by (simp only: len)
  next
    case Csv
    have "exact_source (sim (numbered False n) reply) Csv (int (length (entries (numbered False n))))"
    proof (rule source_exact_csv)
      show "\<not> terminated (numbered False n)" by (simp add: numbered_def)
      show "nl \<notin> set (header (numbered False n))" by (simp add: numbered_def nl_def)
      show "\<forall>e \<in> set (entries (numbered False n)). nl \<notin> set (fst e)"
        unfolding numbered_def by (auto simp: show_nat_no_nl simp del: upt_Suc)
    qed
    with Csv show ?thesis by (simp only: len)
  qed
qed

subsection \<open>Text pages that end with a newline\<close>

text \<open>
  A text page that ends with a newline splits into at least two pieces, so the loop
  never takes it for a page without rows; asked for one row at a time, it never takes
  it for a short page either.
\<close>

lemma split_lines_terminated: "2 \<le> length (split_lines (x @ [nl]))"
proof (induction x)
  case Nil
  show ?case by simp
next
  case (Cons c cs)
  then show ?case by (cases "split_lines (cs @ [nl])") auto
qed

lemma terminated_pass:
  assumes d: "terminated d" and off: "offset s = Num k" "0 \<le> k"
    and a: "format a = Csv" "chunkSize a = Num 1"
  shows "\<exists>s1. loop_body (sim d reply) a None s = Inr s1 \<and> offset s1 = Num (k + 1)"
proof -
  have lim: "chunkLimit a None s = Num 1" using a by (simp add: chunkLimit_def)
  let ?b = "\<lparr>raw = csv_text True (header d # map fst (page (entries d) 1 k)), parsed = None\<rparr>"
  have r: "remote (sim d reply) Csv i (Num 1) (Num k) = Some ?b" for i
    using d off(2) by (simp add: sim_def Let_def)
  have len: "2 \<le> length (split_lines (raw ?b))"
    using split_lines_terminated [of "join [nl] (header d # map fst (page (entries d) 1 k))"]
    by (simp add: csv_text_def)
  then have c: "\<exists>s2. csv_chunk (Num 1) ?b s0 = Inr s2 \<and> offset s2 = offset s0" for s0
    by (auto simp: csv_chunk_def Let_def)
  from c [of "emit (FetchChunk (Num 1) (Num k)) s"]
  obtain s2 where s2: "csv_chunk (Num 1) ?b (emit (FetchChunk (Num 1) (Num k)) s) = Inr s2"
    "offset s2 = Num k" using off(1) by auto
  show ?thesis
    using lim r a(1) off(1) s2
    by (simp add: loop_body_def Let_def commit_chunk_def progress_def)
qed

lemma chunk_one_never_ends:
  assumes d: "terminated d" and off: "offset s = Num k" "0 \<le> k"
    and a: "format a = Csv" "chunkSize a = Num 1"
  shows "download_loop (sim d reply) a None s = None"
proof (rule ccontr)
  assume "download_loop (sim d reply) a None s \<noteq> None"
  then obtain x s' where run: "download_loop (sim d reply) a None s = Some (x, s')" by auto
  let ?I = "\<lambda>s. \<exists>k. offset s = Num k \<and> 0 \<le> k"
  have "False"
  proof (rule loop_rule [OF run, where I = ?I and Q = "\<lambda>x s. False"])
    show "?I s" using off by blast
  next
    fix s s1
    assume "?I s" and b: "loop_body (sim d reply) a None s = Inr s1"
    then obtain k where k: "offset s = Num k" "0 \<le> k" by blast
    from terminated_pass [OF d k a, of reply] b k(2) show "?I s1" by auto
  next
    fix s x s1
    assume "?I s" and b: "loop_body (sim d reply) a None s = Inl (x, s1)"
    then obtain k where "offset s = Num k" "0 \<le> k" by blast
    from terminated_pass [OF d this a, of reply] b show False by auto
  qed
  then show False .
qed

lemma download_never_ends:
  assumes "terminated d" "format a = Csv" "chunkSize a = Num 1" "\<not> truthy_opt (limit a)" "noConfirm a"
    "fetchMetadata (sim d reply) = Inr m"
  shows "downloadDataset (sim d reply) a = None"
proof -
  have cc: "count_and_confirm (sim d reply) a m = (Inr None, [])"
    using assms(5) by (intro no_count) simp
  have "download_loop (sim d reply) a None (start_state a (banner a m)) = None"
    using assms(1) _ _ assms(2,3) by (rule chunk_one_never_ends [where k = 0]) (simp_all add: start_state_def)
  with assms(4,6) cc show ?thesis by (simp add: downloadDataset_def)
qed

section \<open>Page requests without a limit\<close>




section \<open>Page requests with a limit\<close>

text \<open>
  C2 does not hold of the code in the text format. Take \<open>--limit 5\<close> and pages of 2
  rows, with 7 rows at the source. When the source ends every line of a text page with
  a newline, the loop counts the empty piece after the last newline of each page as a
  row (\<open>lines.length - 1\<close>): after two pages it has counted 6 rows, so it stops and
  reports 6 rows saved, and the file holds the header and rows 1 to 4 only. (Asked for
  the 5 rows in one page of 10, it writes rows 1 to 5.) When the source does not end a
  page with a newline, the counter is right (three requests, the last for one row, 5
  rows reported), but every page after the first is written straight after the last
  line of the page before it: the file holds the lines \<open>1\<close>, \<open>23\<close> and \<open>45\<close>.
  The JSON branch, with the same limit and pages, writes exactly the five records.
\<close>

theorem limit_not_respected_in_text:
  "run_summary (downloadDataset (sim (numbered True 7) ''y'') (with_limit Csv 5 2))
     = Some (Resolved, [(Num 2, Num 0), (Num 2, Num 2)],
             [Progress 3 (Num 5), Progress 6 (Num 5)], Log (Complete 6 ''./data/abcd-1234''))
   \<and> written (downloadDataset (sim (numbered True 7) ''y'') (with_limit Csv 5 2))
     = Some (csv_text True (''id'' # map show_nat [1..<5]))
   \<and> run_summary (downloadDataset (sim (numbered False 7) ''y'') (with_limit Csv 5 2))
     = Some (Resolved, [(Num 2, Num 0), (Num 2, Num 2), (Num 1, Num 4)],
             [Progress 2 (Num 5), Progress 4 (Num 5), Progress 5 (Num 5)],
             Log (Complete 5 ''./data/abcd-1234''))
   \<and> written (downloadDataset (sim (numbered False 7) ''y'') (with_limit Csv 5 2))
     = Some (csv_text False [''id'', ''1'', ''23'', ''45''])
   \<and> written (downloadDataset (sim (numbered True 7) ''y'') (with_limit Csv 5 10))
     = Some (csv_text True (''id'' # map show_nat [1..<6]))
   \<and> written (downloadDataset (sim (numbered True 7) ''y'') (with_limit Json 5 2))
     = Some ([CHR ''['', nl]
             @ join [CHR '','', nl]
                 (map (\<lambda>k. ''  '' @ json_text (JObj [(''id'', JStr (show_nat k))])) [1..<6])
             @ [nl, CHR '']'', nl])"
  by code_simp

text \<open>
  What the code does keep with a limit. The limit is \<open>L\<close> with \<open>0 < L < N\<close>, the page
  size is \<open>P > 0\<close>, and the source holds \<open>N\<close> rows and answers every request with
  exactly \<open>min cap (remaining rows)\<close> rows as the loop counts them (in the text
  format: with pages that do not end with a newline). The run ends normally and reports
  \<open>L\<close> rows. It requests exactly \<open>ceil (L / P)\<close> pages, page \<open>k\<close> at offset
  \<open>k * P\<close> with the cap \<open>min P (L - k * P)\<close>: when \<open>L < P\<close> there is one request,
  capped to \<open>L\<close>, and no request asks for more rows than the page size or than the
  distance from its offset to \<open>L\<close>. In the JSON format the file holds exactly \<open>L\<close>
  records; of the text file nothing is said here.
\<close>

theorem limit_is_respected:
  assumes "fetchMetadata w = Inr m"
    and "limit a = Some (Num L)" and "0 < L" and "L < N"
    and "chunkSize a = Num P" and "0 < P"
    and "exact_source w (format a) N"
  shows "\<exists>t. downloadDataset w a = Some (Resolved, t)
           \<and> last t = Log (Complete L (outputFile a))
           \<and> fetches t = capped_requests P L
           \<and> int (length (fetches t)) = ceil_div L P
           \<and> (L < P \<longrightarrow> fetches t = [(Num L, Num 0)])
           \<and> (\<forall>(c, off) \<in> set (fetches t). js_le c (js_sub (Num L) off) \<and> js_le c (Num P))
           \<and> (format a = Json \<longrightarrow>
                (\<exists>rows. int (length rows) = L
                   \<and> file_content t = [CHR ''['', nl]
                       @ join [CHR '','', nl] (map (row_text w) rows) @ [nl, CHR '']'', nl]))"
proof -
  have tr: "truthy_opt (limit a)" using assms(2,3) by simp
  then have cc: "count_and_confirm w a m = (Inr None, [])" by (intro no_count) simp
  have r: "(if truthy_opt (limit a) then limit a else None) = Some (Num L)"
    using tr assms(2) by simp
  from capped_download [OF assms(1) cc r assms(3) _ assms(5,6,7)] assms(4)
  obtain t where t: "downloadDataset w a = Some (Resolved, t)"
    "last t = Log (Complete L (outputFile a))" "fetches t = capped_requests P L"
    by auto
  have js: "\<exists>rows. int (length rows) = L
                   \<and> file_content t = [CHR ''['', nl]
                       @ join [CHR '','', nl] (map (row_text w) rows) @ [nl, CHR '']'', nl]"
    if "format a = Json"
    using json_run [OF that t(1)] t(2) by auto
  from t js capped_requests_facts [OF assms(6,3)] show ?thesis
    by (intro exI [of _ t]) simp
qed

theorem limit_is_respected_witness:
  "exact_source (sim (numbered False 7) ''y'') Csv 7
   \<and> limit (with_limit Csv 5 2) = Some (Num 5) \<and> chunkSize (with_limit Csv 5 2) = Num 2
   \<and> map_option fst (downloadDataset (sim (numbered False 7) ''y'') (with_limit Csv 5 2))
       = Some Resolved
   \<and> fetches (snd (the (downloadDataset (sim (numbered False 7) ''y'') (with_limit Csv 5 2))))
       = [(Num 2, Num 0), (Num 2, Num 2), (Num 1, Num 4)]
   \<and> last (snd (the (downloadDataset (sim (numbered False 7) ''y'') (with_limit Csv 5 2))))
       = Log (Complete 5 ''./data/abcd-1234'')
   \<and> ceil_div 5 2 = 3
   \<and> fetches (snd (the (downloadDataset (sim (numbered False 7) ''y'') (with_limit Json 3 10))))
       = [(Num 3, Num 0)]"
proof -
  let ?W = "sim (numbered False 7) ''y''"
  let ?A = "with_limit Csv 5 2"
  let ?B = "with_limit Json 3 10"
  let ?M = "projr (fetchMetadata ?W)"
  have src: "exact_source ?W fmt 7" for fmt using numbered_exact [of 7 "''y''" fmt] by simp
  have meta: "fetchMetadata ?W = Inr ?M" by code_simp
  have a: "limit ?A = Some (Num 5)" "chunkSize ?A = Num 2" "format ?A = Csv"
    "outputFile ?A = ''./data/abcd-1234''" by code_simp+
  have b: "limit ?B = Some (Num 3)" "chunkSize ?B = Num 10" "format ?B = Json" by code_simp+
  have c: "ceil_div 5 2 = 3" "capped_requests 2 5 = [(Num 2, Num 0), (Num 2, Num 2), (Num 1, Num 4)]"
    by code_simp+
  from limit_is_respected [OF meta a(1) _ _ a(2), of 7] src [of Csv] a(3)
  obtain t where t: "downloadDataset ?W ?A = Some (Resolved, t)"
    "last t = Log (Complete 5 (outputFile ?A))" "fetches t = capped_requests 2 5"
    by auto
  from limit_is_respected [OF meta b(1) _ _ b(2), of 7] src [of Json] b(3)
  obtain u where u: "downloadDataset ?W ?B = Some (Resolved, u)" "fetches u = [(Num 3, Num 0)]"
    by auto
  show ?thesis
    by (intro conjI src a(1,2) c(1)) (simp_all add: t u c(2) a(4))
qed

section \<open>How the loop ends\<close>

text \<open>
  C3 does not hold of the code. In the text format, when the source ends every line of
  a page with a newline, the empty piece after the last newline is counted as a row:
  a page with one row fewer than asked for counts as full, and a page with no row
  counts as one row. With 29 rows and pages of 10, the third page brings 9 rows and the
  loop goes on to request a fourth page. With pages of one row no page ever counts as
  short or empty, and the loop never ends. In the scenario of the claim (27 rows: 10,
  10 and 7) the loop does stop after the third page, with 30 rows reported for the 27
  in the file; when the source does not end pages with a newline, 27 are reported and
  rows 10 and 11, and 20 and 21, share a line. Nor does a counter that has reached a
  limit of zero end the loop: with \<open>--limit 0\<close> and 25 rows at the source three
  pages are requested.
\<close>

theorem short_text_page_goes_on:
  "map_option raw (remote (sim (numbered True 29) ''y'') Csv 2 (Num 10) (Num 20))
     = Some (csv_text True (''id'' # map show_nat [21..<30]))
   \<and> run_summary (downloadDataset (sim (numbered True 29) ''y'') (request Csv None (Num 10) True))
     = Some (Resolved, [(Num 10, Num 0), (Num 10, Num 10), (Num 10, Num 20), (Num 10, Num 30)],
             [Downloaded 11, Downloaded 22, Downloaded 32], Log (Complete 33 ''./data/abcd-1234''))
   \<and> run_summary (downloadDataset (sim (numbered True 27) ''y'') (request Csv None (Num 10) True))
     = Some (Resolved, [(Num 10, Num 0), (Num 10, Num 10), (Num 10, Num 20)],
             [Downloaded 11, Downloaded 22], Log (Complete 30 ''./data/abcd-1234''))
   \<and> written (downloadDataset (sim (numbered False 27) ''y'') (request Csv None (Num 10) True))
     = Some (csv_text False (''id'' # map show_nat [1..<10] @ [''1011''] @ map show_nat [12..<20]
                              @ [''2021''] @ map show_nat [22..<28]))
   \<and> map_option raw (remote (sim (numbered True 3) ''y'') Csv 3 (Num 1) (Num 3))
     = Some (csv_text True [''id''])
   \<and> downloadDataset (sim (numbered True 3) ''y'') (request Csv None (Num 1) True) = None
   \<and> run_summary (downloadDataset (sim (numbered False 25) ''y'')
                    (request Json (Some (Num 0)) (Num 10) True))
     = Some (Resolved, [(Num 10, Num 0), (Num 10, Num 10), (Num 10, Num 20)],
             [Downloaded 10, Downloaded 20], Log (Complete 25 ''./data/abcd-1234''))"
proof -
  let ?W = "sim (numbered True 3) ''y''"
  let ?A = "request Csv None (Num 1) True"
  have "terminated (numbered True 3)" "format ?A = Csv" "chunkSize ?A = Num 1"
    "\<not> truthy_opt (limit ?A)" "noConfirm ?A"
    "fetchMetadata ?W = Inr (projr (fetchMetadata ?W))"
    by code_simp+
  then have never: "downloadDataset ?W ?A = None" by (rule download_never_ends)
  have p3: "map_option raw (remote (sim (numbered True 29) ''y'') Csv 2 (Num 10) (Num 20))
     = Some (csv_text True (''id'' # map show_nat [21..<30]))"
    and r29: "run_summary (downloadDataset (sim (numbered True 29) ''y'') (request Csv None (Num 10) True))
     = Some (Resolved, [(Num 10, Num 0), (Num 10, Num 10), (Num 10, Num 20), (Num 10, Num 30)],
             [Downloaded 11, Downloaded 22, Downloaded 32], Log (Complete 33 ''./data/abcd-1234''))"
    and r27: "run_summary (downloadDataset (sim (numbered True 27) ''y'') (request Csv None (Num 10) True))
     = Some (Resolved, [(Num 10, Num 0), (Num 10, Num 10), (Num 10, Num 20)],
             [Downloaded 11, Downloaded 22], Log (Complete 30 ''./data/abcd-1234''))"
    and w27: "written (downloadDataset (sim (numbered False 27) ''y'') (request Csv None (Num 10) True))
     = Some (csv_text False (''id'' # map show_nat [1..<10] @ [''1011''] @ map show_nat [12..<20]
                              @ [''2021''] @ map show_nat [22..<28]))"
    and p4: "map_option raw (remote ?W Csv 3 (Num 1) (Num 3)) = Some (csv_text True [''id''])"
    and z: "run_summary (downloadDataset (sim (numbered False 25) ''y'')
                    (request Json (Some (Num 0)) (Num 10) True))
     = Some (Resolved, [(Num 10, Num 0), (Num 10, Num 10), (Num 10, Num 20)],
             [Downloaded 10, Downloaded 20], Log (Complete 25 ''./data/abcd-1234''))"
    by code_simp+
  from p3 r29 r27 w27 p4 never z show ?thesis by (intro conjI)
qed

text \<open>
  What the code does keep, the rows of a page being the rows the loop counts in it (the
  length of the array in the JSON format; in the text format the number of pieces after
  the first when the page is split at its newlines). When the page that arrives has no
  such row, or fewer than the cap it was requested with, the loop ends there: the
  request for that page is the last one, what the page adds to the file is written, its
  rows are counted, and nothing else happens. When \<open>rowsToDownload\<close> is set, is not
  zero, and the counter has reached it, the loop ends without a request. With pages of
  10 rows and no limit below 30: if the loop counts 10 rows in each of the first two
  pages and 7 in the third, it ends after the third page with exactly three requests
  (offsets 0, 10 and 20) and 27 rows counted; no fourth page is requested.
\<close>

theorem short_page_ends_loop:
  "(remote w (format a) (fetch_count (trace s)) (chunkLimit a r s) (offset s) = Some b
      \<and> rows_in (format a) b = Some n \<and> \<not> js_le (chunkLimit a r s) (Num 0)
      \<and> (n = 0 \<or> js_lt (Num n) (chunkLimit a r s))
    \<longrightarrow> (\<exists>s'. download_loop w a r s = Some (Break, s')
           \<and> fetches (trace s') = fetches (trace s) @ [(chunkLimit a r s, offset s)]
           \<and> downloadedRows s' = downloadedRows s + n
           \<and> file_content (trace s')
               = file_content (trace s)
                 @ (if n = 0 then [] else page_text w (format a) (isFirstChunk s) b)))
   \<and> (chunkSize a = Num P \<and> r = Some (Num L) \<and> L \<noteq> 0 \<and> L \<le> downloadedRows s
    \<longrightarrow> download_loop w a r s = Some (Break, s))
   \<and> (chunkSize a = Num 10 \<and> (\<not> truthy_opt r \<or> (\<exists>R. r = Some (Num R) \<and> 30 \<le> R))
      \<and> offset s = Num 0 \<and> downloadedRows s = 0
      \<and> remote w (format a) (fetch_count (trace s)) (Num 10) (Num 0) = Some b1
      \<and> rows_in (format a) b1 = Some 10
      \<and> remote w (format a) (fetch_count (trace s) + 1) (Num 10) (Num 10) = Some b2
      \<and> rows_in (format a) b2 = Some 10
      \<and> remote w (format a) (fetch_count (trace s) + 2) (Num 10) (Num 20) = Some b3
      \<and> rows_in (format a) b3 = Some 7
    \<longrightarrow> (\<exists>s'. download_loop w a r s = Some (Break, s')
           \<and> fetches (trace s')
               = fetches (trace s) @ [(Num 10, Num 0), (Num 10, Num 10), (Num 10, Num 20)]
           \<and> downloadedRows s' = 27
           \<and> file_content (trace s')
               = file_content (trace s) @ page_text w (format a) (isFirstChunk s) b1
                 @ page_text w (format a) False b2 @ page_text w (format a) False b3))"
proof (intro conjI impI)
  assume h: "remote w (format a) (fetch_count (trace s)) (chunkLimit a r s) (offset s) = Some b
      \<and> rows_in (format a) b = Some n \<and> \<not> js_le (chunkLimit a r s) (Num 0)
      \<and> (n = 0 \<or> js_lt (Num n) (chunkLimit a r s))"
  then have b: "remote w (format a) (fetch_count (trace s)) (chunkLimit a r s) (offset s) = Some b"
    and n: "rows_in (format a) b = Some n" and lim: "\<not> js_le (chunkLimit a r s) (Num 0)"
    and short: "n = 0 \<or> js_lt (Num n) (chunkLimit a r s)" by simp_all
  from pass_page [OF b n lim] short
  obtain s1 where "loop_body w a r s = Inl (Break, s1)"
    "downloadedRows s1 = downloadedRows s + n"
    "fetches (trace s1) = fetches (trace s) @ [(chunkLimit a r s, offset s)]"
    "file_content (trace s1)
       = file_content (trace s) @ (if n = 0 then [] else page_text w (format a) (isFirstChunk s) b)"
    by auto
  with loop_ends_after [of w a r s Break s1]
  show "\<exists>s'. download_loop w a r s = Some (Break, s')
           \<and> fetches (trace s') = fetches (trace s) @ [(chunkLimit a r s, offset s)]
           \<and> downloadedRows s' = downloadedRows s + n
           \<and> file_content (trace s')
               = file_content (trace s)
                 @ (if n = 0 then [] else page_text w (format a) (isFirstChunk s) b)"
    by blast
next
  assume "chunkSize a = Num P \<and> r = Some (Num L) \<and> L \<noteq> 0 \<and> L \<le> downloadedRows s"
  then have "js_le (chunkLimit a r s) (Num 0)" by (auto simp: chunkLimit_def min_def)
  then show "download_loop w a r s = Some (Break, s)" by (rule loop_stop)
next
  let ?fmt = "format a"
  let ?k = "fetch_count (trace s)"
  assume h: "chunkSize a = Num 10 \<and> (\<not> truthy_opt r \<or> (\<exists>R. r = Some (Num R) \<and> 30 \<le> R))
      \<and> offset s = Num 0 \<and> downloadedRows s = 0
      \<and> remote w ?fmt ?k (Num 10) (Num 0) = Some b1 \<and> rows_in ?fmt b1 = Some 10
      \<and> remote w ?fmt (?k + 1) (Num 10) (Num 10) = Some b2 \<and> rows_in ?fmt b2 = Some 10
      \<and> remote w ?fmt (?k + 2) (Num 10) (Num 20) = Some b3 \<and> rows_in ?fmt b3 = Some 7"
  then have cs: "chunkSize a = Num 10"
    and r: "\<not> truthy_opt r \<or> (\<exists>R. r = Some (Num R) \<and> 30 \<le> R)"
    and s0: "offset s = Num 0" "downloadedRows s = 0"
    and p1: "remote w ?fmt ?k (Num 10) (Num 0) = Some b1" "rows_in ?fmt b1 = Some 10"
    and p2: "remote w ?fmt (?k + 1) (Num 10) (Num 10) = Some b2" "rows_in ?fmt b2 = Some 10"
    and p3: "remote w ?fmt (?k + 2) (Num 10) (Num 20) = Some b3" "rows_in ?fmt b3 = Some 7"
    by simp_all
  note ten = chunkLimit_ten [OF cs r]
  have l0: "chunkLimit a r s = Num 10" using s0 by (intro ten) simp
  from pass_page [of w a s r b1 10] p1 l0 s0
  obtain s1 where s1: "loop_body w a r s = Inr s1" "downloadedRows s1 = 10"
    "fetches (trace s1) = fetches (trace s) @ [(Num 10, Num 0)]"
    "fetch_count (trace s1) = ?k + 1"
    "file_content (trace s1) = file_content (trace s) @ page_text w ?fmt (isFirstChunk s) b1"
    "\<not> isFirstChunk s1" "offset s1 = Num 10"
    by auto
  have l1: "chunkLimit a r s1 = Num 10" using s1(2) by (intro ten) simp
  from pass_page [of w a s1 r b2 10] p2 l1 s1
  obtain s2 where s2: "loop_body w a r s1 = Inr s2" "downloadedRows s2 = 20"
    "fetches (trace s2) = fetches (trace s) @ [(Num 10, Num 0), (Num 10, Num 10)]"
    "fetch_count (trace s2) = ?k + 2"
    "file_content (trace s2) = file_content (trace s) @ page_text w ?fmt (isFirstChunk s) b1
        @ page_text w ?fmt False b2"
    "offset s2 = Num 20" "\<not> isFirstChunk s2"
    by auto
  have l2: "chunkLimit a r s2 = Num 10" using s2(2) by (intro ten) simp
  from pass_page [of w a s2 r b3 7] p3 l2 s2
  obtain s3 where s3: "loop_body w a r s2 = Inl (Break, s3)" "downloadedRows s3 = 27"
    "fetches (trace s3)
       = fetches (trace s) @ [(Num 10, Num 0), (Num 10, Num 10), (Num 10, Num 20)]"
    "file_content (trace s3) = file_content (trace s) @ page_text w ?fmt (isFirstChunk s) b1
        @ page_text w ?fmt False b2 @ page_text w ?fmt False b3"
    by auto
  have "download_loop w a r s = Some (Break, s3)"
    using loop_goes_on [OF s1(1)] loop_goes_on [OF s2(1)] loop_ends_after [OF s3(1)] by simp
  with s3 show "\<exists>s'. download_loop w a r s = Some (Break, s')
           \<and> fetches (trace s')
               = fetches (trace s) @ [(Num 10, Num 0), (Num 10, Num 10), (Num 10, Num 20)]
           \<and> downloadedRows s' = 27
           \<and> file_content (trace s')
               = file_content (trace s) @ page_text w ?fmt (isFirstChunk s) b1
                 @ page_text w ?fmt False b2 @ page_text w ?fmt False b3"
    by blast
qed

theorem short_page_ends_loop_witness:
  "rows_in Json (the (remote (sim (numbered False 27) ''y'') Json 2 (Num 10) (Num 20))) = Some 7
   \<and> map_option fst (download_loop (sim (numbered False 27) ''y'') (quiet_json 10) None
                        (start_state (quiet_json 10) [])) = Some Break
   \<and> fetches (trace (snd (the (download_loop (sim (numbered False 27) ''y'') (quiet_json 10) None
                        (start_state (quiet_json 10) [])))))
       = [(Num 10, Num 0), (Num 10, Num 10), (Num 10, Num 20)]
   \<and> downloadedRows (snd (the (download_loop (sim (numbered False 27) ''y'') (quiet_json 10) None
                        (start_state (quiet_json 10) [])))) = 27
   \<and> rows_in Json (the (remote (sim (numbered False 7) ''y'') Json 0 (Num 10) (Num 0))) = Some 7
   \<and> fetches (trace (snd (the (download_loop (sim (numbered False 7) ''y'') (quiet_json 10) None
                        (start_state (quiet_json 10) [])))))
       = [(Num 10, Num 0)]
   \<and> download_loop (sim (numbered False 7) ''y'') (quiet_json 10) (Some (Num 5))
        ((start_state (quiet_json 10) [])\<lparr>downloadedRows := 5\<rparr>)
       = Some (Break, (start_state (quiet_json 10) [])\<lparr>downloadedRows := 5\<rparr>)"
proof -
  let ?A = "quiet_json 10"
  let ?S = "start_state ?A []"
  let ?W = "sim (numbered False 27) ''y''"
  let ?V = "sim (numbered False 7) ''y''"
  let ?b1 = "the (remote ?W Json 0 (Num 10) (Num 0))"
  let ?b2 = "the (remote ?W Json 1 (Num 10) (Num 10))"
  let ?b3 = "the (remote ?W Json 2 (Num 10) (Num 20))"
  let ?c = "the (remote ?V Json 0 (Num 10) (Num 0))"
  have a: "fetches (trace ?S) = []" "format ?A = Json" by code_simp+
  have h3: "chunkSize ?A = Num 10" "offset ?S = Num 0" "downloadedRows ?S = 0"
    "remote ?W (format ?A) (fetch_count (trace ?S)) (Num 10) (Num 0) = Some ?b1"
    "rows_in (format ?A) ?b1 = Some 10"
    "remote ?W (format ?A) (fetch_count (trace ?S) + 1) (Num 10) (Num 10) = Some ?b2"
    "rows_in (format ?A) ?b2 = Some 10"
    "remote ?W (format ?A) (fetch_count (trace ?S) + 2) (Num 10) (Num 20) = Some ?b3"
    "rows_in (format ?A) ?b3 = Some 7"
    by code_simp+
  have un: "\<not> truthy_opt None \<or> (\<exists>R. None = Some (Num R) \<and> 30 \<le> R)" by simp
  from short_page_ends_loop [of ?W ?A ?S None _ _ _ _ ?b1 ?b2 ?b3,
      THEN conjunct2, THEN conjunct2, rule_format] h3 un
  obtain s' where s': "download_loop ?W ?A None ?S = Some (Break, s')"
    "fetches (trace s') = fetches (trace ?S) @ [(Num 10, Num 0), (Num 10, Num 10), (Num 10, Num 20)]"
    "downloadedRows s' = 27"
    by blast
  have h1: "remote ?V (format ?A) (fetch_count (trace ?S)) (chunkLimit ?A None ?S) (offset ?S) = Some ?c"
    "rows_in (format ?A) ?c = Some 7" "\<not> js_le (chunkLimit ?A None ?S) (Num 0)"
    "js_lt (Num 7) (chunkLimit ?A None ?S)" "(chunkLimit ?A None ?S, offset ?S) = (Num 10, Num 0)"
    by code_simp+
  from short_page_ends_loop [of ?V ?A ?S None ?c 7, THEN conjunct1, rule_format] h1(1-4)
  obtain s'' where s'': "download_loop ?V ?A None ?S = Some (Break, s'')"
    "fetches (trace s'') = fetches (trace ?S) @ [(chunkLimit ?A None ?S, offset ?S)]"
    by blast
  have "chunkSize ?A = Num 10 \<and> Some (Num 5) = Some (Num 5) \<and> (5::int) \<noteq> 0
      \<and> 5 \<le> downloadedRows (?S\<lparr>downloadedRows := 5\<rparr>)"
    using h3(1) by simp
  with short_page_ends_loop [of ?V ?A "?S\<lparr>downloadedRows := 5\<rparr>" "Some (Num 5)" _ _ 10 5]
  have lim: "download_loop ?V ?A (Some (Num 5)) (?S\<lparr>downloadedRows := 5\<rparr>)
       = Some (Break, ?S\<lparr>downloadedRows := 5\<rparr>)"
    by blast
  have r3: "rows_in Json ?b3 = Some 7" and r1: "rows_in Json ?c = Some 7" by code_simp+
  show ?thesis
    by (intro conjI r3 r1 lim) (simp_all add: s' s'' a h1(5))
qed

section \<open>The output in the JSON format\<close>

text \<open>
  C4. Whatever the remote side answers and however many pages are fetched, a download in
  the JSON format that ends normally leaves in the file exactly: an opening bracket and
  a newline; the records that were committed, each after two spaces, with a comma and a
  newline between one and the next, none before the first and none after the last; a
  newline, the closing bracket and a newline. That the text is valid JSON then rests on
  \<open>JSON.stringify\<close> giving valid JSON for each record. With no record the file is
  the two brackets with two newlines between. The number of rows that the last line of
  the run reports as saved is the number of the records in the file.
\<close>

theorem json_output_is_one_array:
  assumes "format a = Json" and "downloadDataset w a = Some (Resolved, t)"
  shows "\<exists>rows. file_content t
           = [CHR ''['', nl] @ join [CHR '','', nl] (map (row_text w) rows) @ [nl, CHR '']'', nl]
         \<and> last t = Log (Complete (int (length rows)) (outputFile a))"
  using assms by (rule json_run)

theorem json_output_is_one_array_witness:
  "format (quiet_json 2) = Json
   \<and> fst (the (downloadDataset (sim (numbered False 3) ''y'') (quiet_json 2))) = Resolved
   \<and> (\<exists>rows. file_content (snd (the (downloadDataset (sim (numbered False 3) ''y'') (quiet_json 2))))
           = [CHR ''['', nl] @ join [CHR '','', nl]
                 (map (row_text (sim (numbered False 3) ''y'')) rows) @ [nl, CHR '']'', nl]
         \<and> last (snd (the (downloadDataset (sim (numbered False 3) ''y'') (quiet_json 2))))
             = Log (Complete (int (length rows)) (outputFile (quiet_json 2))))
   \<and> written (downloadDataset (sim (numbered False 0) ''y'') (quiet_json 2))
       = Some [CHR ''['', nl, nl, CHR '']'', nl]"
proof -
  let ?W = "sim (numbered False 3) ''y''"
  let ?t = "snd (the (downloadDataset ?W (quiet_json 2)))"
  have fmt: "format (quiet_json 2) = Json" by code_simp
  have run: "downloadDataset ?W (quiet_json 2) = Some (Resolved, ?t)" by code_simp
  have res: "fst (the (downloadDataset ?W (quiet_json 2))) = Resolved" by (subst run) simp
  have none: "written (downloadDataset (sim (numbered False 0) ''y'') (quiet_json 2))
       = Some [CHR ''['', nl, nl, CHR '']'', nl]"
    by code_simp
  from json_output_is_one_array [OF fmt run] fmt res none show ?thesis by (intro conjI)
qed

section \<open>The confirmation gate\<close>




section \<open>Progress lines\<close>

text \<open>
  C8, as the code has it. The progress line is printed at the end of a pass through the
  loop body, after the tests that leave the loop. So a page that brings as many rows as
  were asked for is followed, after its writes, by one progress line, which shows the
  rows committed so far and the total when \<open>rowsToDownload\<close> is known and not zero,
  and the rows committed alone otherwise. A pass that leaves the loop prints no progress
  line: not after a page with fewer rows than asked for, which is committed, and not
  after an empty or failed page. In a run of the loop the progress lines are as many as
  the page requests when the loop ends at the test of the cap, and one fewer when it
  ends after a page.
\<close>

theorem progress_after_full_pages:
  "(loop_body w a r s = Inr s1 \<longrightarrow>
      (\<exists>ws. trace s1 = trace s @ FetchChunk (chunkLimit a r s) (offset s) # map Write ws
                          @ [progress_line r (downloadedRows s1)]))
   \<and> (loop_body w a r s = Inl (x, s2) \<longrightarrow> progress_count (trace s2) = progress_count (trace s))
   \<and> (download_loop w a r s = Some (x, s') \<longrightarrow>
        (\<exists>ext. trace s' = trace s @ ext
           \<and> fetch_count ext
               = progress_count ext + (if js_le (chunkLimit a r s') (Num 0) then 0 else 1)))"
  using pass_continues [of w a r s s1] pass_ends [of w a r s x s2] run_progress [of w a r s x s']
  by blast

theorem progress_after_full_pages_witness:
  "\<not> isl (loop_body (sim (numbered False 5) ''y'') (quiet_json 2) None (start_state (quiet_json 2) []))
   \<and> last (trace (projr (loop_body (sim (numbered False 5) ''y'') (quiet_json 2) None
                          (start_state (quiet_json 2) [])))) = Downloaded 2
   \<and> isl (loop_body (sim (numbered False 1) ''y'') (quiet_json 2) None (start_state (quiet_json 2) []))
   \<and> progress_count (trace (snd (projl (loop_body (sim (numbered False 1) ''y'') (quiet_json 2) None
                         (start_state (quiet_json 2) []))))) = 0
   \<and> download_loop (sim (numbered False 5) ''y'') (quiet_json 2) None (start_state (quiet_json 2) [])
        \<noteq> None
   \<and> fetch_count (trace (snd (the (download_loop (sim (numbered False 5) ''y'') (quiet_json 2) None
                         (start_state (quiet_json 2) [])))))
       = progress_count (trace (snd (the (download_loop (sim (numbered False 5) ''y'') (quiet_json 2)
                         None (start_state (quiet_json 2) []))))) + 1"
proof -
  let ?A = "quiet_json 2"
  let ?S = "start_state ?A []"
  let ?W5 = "sim (numbered False 5) ''y''"
  let ?W1 = "sim (numbered False 1) ''y''"
  let ?s1 = "projr (loop_body ?W5 ?A None ?S)"
  let ?s2 = "snd (projl (loop_body ?W1 ?A None ?S))"
  let ?s' = "snd (the (download_loop ?W5 ?A None ?S))"
  have full: "loop_body ?W5 ?A None ?S = Inr ?s1" by code_simp
  have short: "loop_body ?W1 ?A None ?S = Inl (Break, ?s2)" by code_simp
  have run: "download_loop ?W5 ?A None ?S = Some (Break, ?s')" by code_simp
  have start: "trace ?S = [Log (DownloadingTo (outputFile ?A)), CreateWriteStream (outputFile ?A),
                           Write [CHR ''['', nl]]"
    by code_simp
  from full progress_after_full_pages [of ?W5 ?A None ?S ?s1]
  obtain ws where "trace ?s1 = trace ?S @ FetchChunk (chunkLimit ?A None ?S) (offset ?S)
                     # map Write ws @ [progress_line None (downloadedRows ?s1)]"
    by blast
  then have "last (trace ?s1) = progress_line None (downloadedRows ?s1)" by simp
  moreover have "progress_line None (downloadedRows ?s1) = Downloaded 2" by code_simp
  ultimately have a: "last (trace ?s1) = Downloaded 2" by simp
  from short progress_after_full_pages [of ?W1 ?A None ?S _ Break ?s2]
  have "progress_count (trace ?s2) = progress_count (trace ?S)" by blast
  then have b: "progress_count (trace ?s2) = 0"
    unfolding start by (simp add: progress_count_def)
  from run progress_after_full_pages [of ?W5 ?A None ?S _ Break _ ?s']
  obtain ext where ext: "trace ?s' = trace ?S @ ext"
    "fetch_count ext = progress_count ext + (if js_le (chunkLimit ?A None ?s') (Num 0) then 0 else 1)"
    by blast
  have "\<not> js_le (chunkLimit ?A None ?s') (Num 0)"
    by (simp add: chunkLimit_def quiet_json_def request_def)
  with ext have c: "fetch_count (trace ?s') = progress_count (trace ?s') + 1"
    unfolding ext(1) start by (simp add: progress_count_def fetch_count_def)
  have f1: "\<not> isl (loop_body ?W5 ?A None ?S)" by (subst full) simp
  have f3: "isl (loop_body ?W1 ?A None ?S)" by (subst short) simp
  have f5: "download_loop ?W5 ?A None ?S \<noteq> None" by (subst run) simp
  show ?thesis by (intro conjI f1 a f3 b f5 c)
qed

text \<open>
  C8, as the claim has it, fails: 25 rows in pages of 10, total unknown. Three pages are
  requested and all 25 rows are saved, but the progress lines are two, the last one
  showing 20 rows: none follows the last page.
\<close>

theorem no_progress_after_last_page_counterexample:
  "run_summary (downloadDataset (sim (numbered False 25) ''y'') (request Json None (Num 10) True))
     = Some (Resolved, [(Num 10, Num 0), (Num 10, Num 10), (Num 10, Num 20)],
             [Downloaded 10, Downloaded 20], Log (Complete 25 ''./data/abcd-1234''))"
  by code_simp

section \<open>The row-count estimator\<close>

text \<open>
  C9, as the code has it. The answer to the count query is an array of one record.
  The count is zero when the record has no \<open>count\<close> field, or a falsy one (\<open>null\<close>,
  the empty string, zero, \<open>false\<close>). A \<open>count\<close> that is a number other than zero is
  that number. A \<open>count\<close> that is a string is read as \<open>parseInt\<close> reads it: after
  white space and at most one sign, the decimal digits up to the first character that
  is not a digit. If there is at least one digit, the count is the number value of the
  integer written, with its sign: the integer itself when it is below \<open>2^53\<close>, the
  nearest double (or an infinity) otherwise. If there is no digit there, the count is
  not turned into zero: it is \<open>NaN\<close>.
\<close>

theorem countRows_parse:
  assumes "countResponse w = Some b" and "parsed b = Some (JArr [JObj kvs])"
  shows "(\<not> truthy (own kvs ''count'') \<longrightarrow> countRows w = Inr (Num 0))
       \<and> (\<forall>n. own kvs ''count'' = Some (JNum n) \<and> n \<noteq> 0 \<longrightarrow> countRows w = Inr (Num (sint n)))
       \<and> (\<forall>ws sg ds rest.
            own kvs ''count'' = Some (JStr (ws @ sg @ ds @ rest))
            \<and> list_all is_space ws \<and> (sg = [] \<or> sg = ''-'' \<or> sg = ''+'')
            \<and> ds \<noteq> [] \<and> list_all is_digit ds
            \<and> (case rest of [] \<Rightarrow> True | c # _ \<Rightarrow> \<not> is_digit c)
            \<longrightarrow> countRows w
                  = Inr (number_value (if sg = ''-'' then - digits_val ds else digits_val ds))
                \<and> (digits_val ds < 2 ^ 53
                     \<longrightarrow> countRows w
                           = Inr (Num (if sg = ''-'' then - digits_val ds else digits_val ds))))
       \<and> (\<forall>ws sg rest.
            own kvs ''count'' = Some (JStr (ws @ sg @ rest)) \<and> ws @ sg @ rest \<noteq> []
            \<and> list_all is_space ws \<and> (sg = [] \<or> sg = ''-'' \<or> sg = ''+'')
            \<and> (case rest of [] \<Rightarrow> True
                | c # _ \<Rightarrow> \<not> is_digit c
                           \<and> (sg = [] \<longrightarrow> \<not> is_space c \<and> c \<noteq> CHR ''-'' \<and> c \<noteq> CHR ''+''))
            \<longrightarrow> countRows w = Inr NaN)"
proof -
  have base: "countRows w = Inr (parseInt (if truthy (own kvs ''count'')
                                then toString (the (own kvs ''count'')) else ''0''))"
    using assms by (simp add: countRows_def count_of_def)
  have zero: "parseInt ''0'' = Num 0" by code_simp
  have c1: "countRows w = Inr (Num 0)" if "\<not> truthy (own kvs ''count'')"
    using base zero that by simp
  have c2: "countRows w = Inr (Num (sint n))" if "own kvs ''count'' = Some (JNum n) \<and> n \<noteq> 0" for n
    using base that by (simp add: parseInt_show_int number_value_sint)
  have c3: "countRows w
              = Inr (number_value (if sg = ''-'' then - digits_val ds else digits_val ds))
            \<and> (digits_val ds < 2 ^ 53
                 \<longrightarrow> countRows w
                       = Inr (Num (if sg = ''-'' then - digits_val ds else digits_val ds)))"
    if h: "own kvs ''count'' = Some (JStr (ws @ sg @ ds @ rest))
            \<and> list_all is_space ws \<and> (sg = [] \<or> sg = ''-'' \<or> sg = ''+'')
            \<and> ds \<noteq> [] \<and> list_all is_digit ds
            \<and> (case rest of [] \<Rightarrow> True | c # _ \<Rightarrow> \<not> is_digit c)"
    for ws sg ds rest
  proof -
    let ?v = "if sg = ''-'' then - digits_val ds else digits_val ds"
    from h have "parseInt (ws @ sg @ ds @ rest) = number_value ?v"
      by (intro parseInt_number) simp_all
    with base h have v: "countRows w = Inr (number_value ?v)" by simp
    from h have "0 \<le> digits_val ds" by (intro digits_val_nonneg) simp
    then have "number_value ?v = Num ?v" if "digits_val ds < 2 ^ 53"
      using that by (intro number_value_exact) simp
    with v show ?thesis by simp
  qed
  have c4: "countRows w = Inr NaN"
    if h: "own kvs ''count'' = Some (JStr (ws @ sg @ rest)) \<and> ws @ sg @ rest \<noteq> []
            \<and> list_all is_space ws \<and> (sg = [] \<or> sg = ''-'' \<or> sg = ''+'')
            \<and> (case rest of [] \<Rightarrow> True
                | c # _ \<Rightarrow> \<not> is_digit c
                           \<and> (sg = [] \<longrightarrow> \<not> is_space c \<and> c \<noteq> CHR ''-'' \<and> c \<noteq> CHR ''+''))"
    for ws sg rest
  proof -
    from h have "parseInt (ws @ sg @ rest) = NaN" by (intro parseInt_NaN) simp_all
    with base h show ?thesis by simp
  qed
  from c1 c2 c3 c4 show ?thesis by blast
qed

theorem countRows_parse_witness:
  "countResponse (counting (JArr [JObj []])) = Some (json_body (JArr [JObj []]))
   \<and> \<not> truthy (own [] ''count'')
   \<and> countRows (counting (JArr [JObj []])) = Inr (Num 0)
   \<and> countRows (counting (JArr [JObj [(''count'', JNum 7)]])) = Inr (Num 7)
   \<and> list_all is_digit ''1234''
   \<and> countRows (counting (JArr [JObj [(''count'', JStr ''1234'')]])) = Inr (Num 1234)
   \<and> list_all is_space [CHR 0xA0, CHR '' '']
   \<and> countRows (counting (JArr [JObj [(''count'', JStr ([CHR 0xA0, CHR '' ''] @ ''-12 rows''))]]))
       = Inr (Num (- 12))
   \<and> countRows (counting (JArr [JObj [(''count'', JStr ''9007199254740993'')]]))
       = Inr (Num 9007199254740992)
   \<and> \<not> is_space CHR ''a'' \<and> \<not> is_digit CHR ''a''
   \<and> countRows (counting (JArr [JObj [(''count'', JStr ''abc'')]])) = Inr NaN"
proof -
  let ?W = "\<lambda>v. counting (JArr [JObj [(''count'', v)]])"
  let ?B = "\<lambda>v. json_body (JArr [JObj [(''count'', v)]])"
  have w: "countResponse (?W v) = Some (?B v)" "parsed (?B v) = Some (JArr [JObj [(''count'', v)]])"
    "own [(''count'', v)] ''count'' = Some v" for v
    by (simp_all add: counting_def json_body_def own_def)
  have e: "countResponse (counting (JArr [JObj []])) = Some (json_body (JArr [JObj []]))"
    "parsed (json_body (JArr [JObj []])) = Some (JArr [JObj []])"
    "\<not> truthy (own [] ''count'')"
    by (simp_all add: counting_def json_body_def own_def)
  have sp: "list_all is_space [CHR 0xA0, CHR '' '']" "list_all is_space []"
    and dg: "list_all is_digit ''1234''" "list_all is_digit ''12''"
      "list_all is_digit ''9007199254740993''"
    and na: "\<not> is_space CHR ''a''" "\<not> is_digit CHR ''a''" "\<not> is_digit CHR '' ''"
    by (simp_all add: is_space_def is_digit_def)
  have v: "digits_val ''1234'' = 1234" "digits_val ''12'' = 12"
    "number_value (digits_val ''9007199254740993'') = Num 9007199254740992"
    "number_value 1234 = Num 1234" "number_value (- 12) = Num (- 12)"
    by code_simp+
  from countRows_parse [OF e(1,2)] e(3)
  have r0: "countRows (counting (JArr [JObj []])) = Inr (Num 0)" by blast
  from countRows_parse [OF w(1,2), of "JNum 7"] w(3) [of "JNum 7"]
  have r1: "countRows (?W (JNum 7)) = Inr (Num 7)" by simp
  from countRows_parse [OF w(1,2), of "JStr ''1234''", THEN conjunct2, THEN conjunct2,
      THEN conjunct1, rule_format, of "[]" "[]" "''1234''" "[]"] w(3) sp(2) dg(1) v(1,4)
  have r2: "countRows (?W (JStr ''1234'')) = Inr (Num 1234)" by simp
  from countRows_parse [OF w(1,2), of "JStr ([CHR 0xA0, CHR '' ''] @ ''-12 rows'')",
      THEN conjunct2, THEN conjunct2, THEN conjunct1, rule_format,
      of "[CHR 0xA0, CHR '' '']" "''-''" "''12''" "'' rows''"] w(3) sp(1) dg(2) v(2,5) na(3)
  have r3: "countRows (?W (JStr ([CHR 0xA0, CHR '' ''] @ ''-12 rows''))) = Inr (Num (- 12))"
    by simp
  from countRows_parse [OF w(1,2), of "JStr ''9007199254740993''", THEN conjunct2,
      THEN conjunct2, THEN conjunct1, rule_format, of "[]" "[]" "''9007199254740993''" "[]"]
    w(3) sp(2) dg(3) v(3)
  have r4: "countRows (?W (JStr ''9007199254740993'')) = Inr (Num 9007199254740992)" by simp
  from countRows_parse [OF w(1,2), of "JStr ''abc''", THEN conjunct2, THEN conjunct2,
      THEN conjunct2, rule_format, of "[]" "[]" "''abc''"] w(3) na(1,2)
  have r5: "countRows (?W (JStr ''abc'')) = Inr NaN" by simp
  from e(1,3) r0 r1 dg(1) r2 sp(1) r3 r4 na(1,2) r5 show ?thesis by (intro conjI)
qed

text \<open>
  C9, as the claim has it, fails: a record whose \<open>count\<close> is the text \<open>abc\<close> does not
  give zero.
\<close>

theorem countRows_malformed_counterexample:
  "countRows (counting (JArr [JObj [(''count'', JStr ''abc'')]])) = Inr NaN
   \<and> countRows (counting (JArr [JObj [(''count'', JStr ''abc'')]])) \<noteq> Inr (Num 0)"
  by (simp add: countRows_def count_of_def counting_def json_body_def own_def parseInt_def
        is_space_def is_digit_def)

section \<open>Metadata first\<close>

text \<open>
  C10. The metadata request is the first thing a run does after \<open>parseArgs\<close>, and
  the output stream is created only after \<open>fetchMetadata\<close> has resolved. If the
  request fails, or its body is not JSON (or \<open>fetchMetadata\<close> rejects for any other
  reason), the process prints the error and exits with code 1, having done nothing
  else: the output file is neither created nor written. In every run, no operation on
  the output file happens before the metadata request, and none happens at all unless
  \<open>fetchMetadata\<close> has succeeded.
\<close>

theorem metadata_before_file:
  "(metadataResponse w = None \<longrightarrow> fetchMetadata w = Inl RequestError)
   \<and> (metadataResponse w = Some b \<and> parsed b = None \<longrightarrow> fetchMetadata w = Inl MetadataError)
   \<and> (fetchMetadata w = Inl e \<longrightarrow>
        main w a = Some (1, [Log (FetchingMetadata (datasetId a)), GetMetadata, LogError e]))
   \<and> (main w a = Some (c, t) \<longrightarrow>
        precedes ((=) GetMetadata) touches_file t
        \<and> (list_ex touches_file t \<longrightarrow> (\<exists>m. fetchMetadata w = Inr m)))"
proof -
  have fail: "main w a = Some (1, [Log (FetchingMetadata (datasetId a)), GetMetadata, LogError e])"
    if "fetchMetadata w = Inl e" for e
    using that by (simp add: main_def downloadDataset_def)
  have order: "precedes ((=) GetMetadata) touches_file t
        \<and> (list_ex touches_file t \<longrightarrow> (\<exists>m. fetchMetadata w = Inr m))"
    if run: "main w a = Some (c, t)"
  proof (cases "fetchMetadata w")
    case (Inl e')
    from fail [OF this] run show ?thesis by simp
  next
    case (Inr m)
    with main_shape [OF run] obtain rest where "t = banner a m @ rest" by auto
    with banner_meta [of a m] Inr show ?thesis by auto
  qed
  from fail order fetchMetadata_fails show ?thesis by blast
qed

theorem metadata_before_file_witness:
  "metadataResponse unreachable = None
   \<and> main unreachable ask
       = Some (1, [Log (FetchingMetadata ''abcd-1234''), GetMetadata, LogError RequestError])
   \<and> metadataResponse garbled = Some \<lparr>raw = ''<html>'', parsed = None\<rparr>
   \<and> main garbled ask
       = Some (1, [Log (FetchingMetadata ''abcd-1234''), GetMetadata, LogError MetadataError])
   \<and> main (sim (numbered False 3) ''y'') ask \<noteq> None
   \<and> list_ex touches_file (snd (the (main (sim (numbered False 3) ''y'') ask)))
   \<and> precedes ((=) GetMetadata) touches_file (snd (the (main (sim (numbered False 3) ''y'') ask)))
   \<and> fetchMetadata (sim (numbered False 3) ''y'')
       = Inr \<lparr>name = Some (JStr ''Rows''), description = Some (JStr []), columns = [],
              rowCount = None\<rparr>"
proof -
  let ?W = "sim (numbered False 3) ''y''"
  let ?t = "snd (the (main ?W ask))"
  have u: "metadataResponse unreachable = None" by code_simp
  have g: "metadataResponse garbled = Some \<lparr>raw = ''<html>'', parsed = None\<rparr>"
    "parsed \<lparr>raw = ''<html>'', parsed = None\<rparr> = None" by code_simp+
  have id: "datasetId ask = ''abcd-1234''" by code_simp
  from metadata_before_file [of unreachable _ RequestError ask] u
  have a: "main unreachable ask
       = Some (1, [Log (FetchingMetadata ''abcd-1234''), GetMetadata, LogError RequestError])"
    unfolding id by blast
  from metadata_before_file [of garbled "\<lparr>raw = ''<html>'', parsed = None\<rparr>" MetadataError ask] g
  have b: "main garbled ask
       = Some (1, [Log (FetchingMetadata ''abcd-1234''), GetMetadata, LogError MetadataError])"
    unfolding id by blast
  have run: "main ?W ask = Some (0, ?t)" by code_simp
  have ran: "main ?W ask \<noteq> None" by (subst run) simp
  have fl: "list_ex touches_file ?t" by code_simp
  from metadata_before_file [of ?W _ _ ask 0 ?t] run
  have ord: "precedes ((=) GetMetadata) touches_file ?t" by blast
  have meta: "fetchMetadata ?W
       = Inr \<lparr>name = Some (JStr ''Rows''), description = Some (JStr []), columns = [],
              rowCount = None\<rparr>" by code_simp
  from u a g(1) b ran fl ord meta show ?thesis by (intro conjI)
qed

section \<open>Zero rows to download\<close>

text \<open>
  C7 does not hold of the code. The tests \<open>!args.limit\<close>, \<open>args.limit || totalRows\<close>
  and \<open>rowsToDownload ? ... : args.chunkSize\<close> take zero for "not given", so the guard
  \<open>chunkLimit <= 0\<close> never sees a zero total. With \<open>--limit 0\<close> (confirmation
  suppressed, pages of 10, 25 rows at the source) the run requests three pages and saves
  all 25 rows. With a count query that answers zero (no limit, the operator confirming)
  the run still requests one page of 10 rows; the source returning none, the file is the
  empty array.
\<close>

theorem zero_limit_still_fetches:
  "run_summary (downloadDataset (sim (numbered False 25) ''y'')
                  (request Json (Some (Num 0)) (Num 10) True))
     = Some (Resolved, [(Num 10, Num 0), (Num 10, Num 10), (Num 10, Num 20)],
             [Downloaded 10, Downloaded 20], Log (Complete 25 ''./data/abcd-1234''))
   \<and> run_summary (downloadDataset (sim (numbered False 0) ''y'') (request Json None (Num 10) False))
     = Some (Resolved, [(Num 10, Num 0)], [], Log (Complete 0 ''./data/abcd-1234''))
   \<and> written (downloadDataset (sim (numbered False 0) ''y'') (request Json None (Num 10) False))
     = Some [CHR ''['', nl, nl, CHR '']'', nl]
   \<and> countRows (sim (numbered False 0) ''y'') = Inr (Num 0)"
  by code_simp

section \<open>The output in the text format\<close>

text \<open>
  C5 does not hold of the code: 25 rows downloaded as text in pages of 10 and in one page
  of 10000 do not give the same file. When the source does not end a page with a
  newline, the pages after the first are appended with nothing between the last line of
  one page and the first data line of the next: rows 10 and 11 end up on one line, and
  so do rows 20 and 21. When the source ends every line with a newline, the empty piece
  after the last newline is counted as a row (\<open>lines.length - 1\<close>), so with the total
  known from the count query the third page is asked for 3 rows only and the loop stops
  with 26 rows counted: rows 24 and 25 are missing from the file. In both cases the
  single page of 10000 gives the header and the 25 rows.
\<close>

theorem paged_text_differs:
  "written (downloadDataset (sim (numbered False 25) ''y'') (request Csv None (Num 10) True))
     = Some (csv_text False (''id'' # map show_nat [1..<10] @ [''1011''] @ map show_nat [12..<20]
                              @ [''2021''] @ map show_nat [22..<26]))
   \<and> written (downloadDataset (sim (numbered False 25) ''y'') (request Csv None (Num 10000) True))
     = Some (csv_text False (''id'' # map show_nat [1..<26]))
   \<and> written (downloadDataset (sim (numbered True 25) ''y'') (request Csv None (Num 10) False))
     = Some (csv_text True (''id'' # map show_nat [1..<24]))
   \<and> written (downloadDataset (sim (numbered True 25) ''y'') (request Csv None (Num 10000) False))
     = Some (csv_text True (''id'' # map show_nat [1..<26]))
   \<and> run_summary (downloadDataset (sim (numbered True 25) ''y'') (request Csv None (Num 10) False))
     = Some (Resolved, [(Num 10, Num 0), (Num 10, Num 10), (Num 3, Num 20)],
             [Progress 11 (Num 25), Progress 22 (Num 25), Progress 26 (Num 25)],
             Log (Complete 26 ''./data/abcd-1234''))"
  by code_simp

end
